theory Spec2Isabelle
  imports Main "HOL-Library.Word" "HOL-Library.Char_ord"
begin

section \<open>The fixed length string\<close>

text \<open>
  \<^verbatim>\<open>std::size_t\<close> is modelled as a 64-bit word: addition and subtraction wrap around,
  \<^verbatim>\<open>(std::size_t)(-1)\<close> is the word \<open>- 1\<close>.
\<close>

type_synonym size_t = "64 word"

text \<open>
  Everything is evaluated in a constant expression, so an access outside an array and a
  division by zero stop the build. They are the error values of the model, wherever an index
  or a pointer is not bounded by the loop around it: in the copying constructors, for the
  destination of \<^verbatim>\<open>tidy\<close>, and for the pointers that \<^verbatim>\<open>raw\<close> and \<^verbatim>\<open>base\<close> form. The other reads are
  at indices below \<^verbatim>\<open>size_\<close> or below \<^verbatim>\<open>len = capacity_ - 1\<close>, inside the array.
\<close>

datatype error = Out_Of_Bounds | Division_By_Zero | Unsupported_Compiler

text \<open>
  \<^verbatim>\<open>fixed_string_t<N>\<close>: the array \<^verbatim>\<open>data_[N]\<close>, the logical length \<^verbatim>\<open>size_\<close>, and the
  template parameter \<^verbatim>\<open>N\<close> as \<^verbatim>\<open>capacity_\<close>. A name cannot end with an underscore here, so
  the fields are \<open>data_f\<close>, \<open>size_f\<close> and \<open>capacity_f\<close>.
\<close>

record fixed_string_t =
  data_f :: "char list"
  size_f :: size_t
  capacity_f :: size_t

definition npos :: size_t where
  "npos = - 1"

text \<open>The defaulted constructor under value initialisation: zeroes, length 0.\<close>

definition fixed_string_empty :: "size_t \<Rightarrow> fixed_string_t" where
  "fixed_string_empty N = \<lparr>data_f = replicate (unat N) (CHR 0x00), size_f = 0, capacity_f = N\<rparr>"

text \<open>
  The loop shared by the two copying constructors:
  \<^verbatim>\<open>for (size_ = 0; size_ < len && size_ < N - 1; ++size_) data_[size_] = str[size_];\<close>
  followed by \<^verbatim>\<open>data_[size_] = '\0'\<close>. \<open>str\<close> is the array the pointer points into, from
  the pointer on.
\<close>

function fixed_string_copy :: "char list \<Rightarrow> size_t \<Rightarrow> fixed_string_t \<Rightarrow> error + fixed_string_t" where
  "fixed_string_copy str len s =
     (if size_f s < len \<and> size_f s < capacity_f s - 1 then
        (if unat (size_f s) < length str \<and> unat (size_f s) < length (data_f s)
         then fixed_string_copy str len
                (s\<lparr>data_f := (data_f s)[unat (size_f s) := str ! unat (size_f s)],
                   size_f := size_f s + 1\<rparr>)
         else Inl Out_Of_Bounds)
      else (if unat (size_f s) < length (data_f s)
            then Inr (s\<lparr>data_f := (data_f s)[unat (size_f s) := CHR 0x00]\<rparr>)
            else Inl Out_Of_Bounds))"
  by pat_completeness auto
termination
proof (relation "measure (\<lambda>(str, len, s). unat len - unat (size_f s))")
  show "wf (measure (\<lambda>(str, len, s). unat len - unat (size_f s)))"
    by simp
next
  fix str :: "char list" and len :: size_t and s :: fixed_string_t
  assume "size_f s < len \<and> size_f s < capacity_f s - 1"
  then have "unat (size_f s + 1) = unat (size_f s) + 1" and "unat (size_f s) < unat len"
    by unat_arith+
  then show "((str, len, s\<lparr>data_f := (data_f s)[unat (size_f s) := str ! unat (size_f s)],
                 size_f := size_f s + 1\<rparr>), (str, len, s))
             \<in> measure (\<lambda>(str, len, s). unat len - unat (size_f s))"
    by simp
qed

text \<open>\<^verbatim>\<open>fixed_string_t<N>(const char* str, std::size_t len)\<close>\<close>

definition fixed_string_ptr :: "size_t \<Rightarrow> char list \<Rightarrow> size_t \<Rightarrow> error + fixed_string_t" where
  "fixed_string_ptr N str len = fixed_string_copy str len (fixed_string_empty N)"

text \<open>
  \<^verbatim>\<open>fixed_string_t<N>(const char (&str)[M])\<close>: \<open>str\<close> is the whole array, its terminating
  zero included, and \<open>M\<close> its length.
\<close>

definition fixed_string_lit :: "size_t \<Rightarrow> char list \<Rightarrow> error + fixed_string_t" where
  "fixed_string_lit N str = fixed_string_copy str (of_nat (length str) - 1) (fixed_string_empty N)"

text \<open>\<^verbatim>\<open>to_fixed_string(const char (&src)[N])\<close>\<close>

definition to_fixed_string :: "char list \<Rightarrow> error + fixed_string_t" where
  "to_fixed_string src = fixed_string_lit (of_nat (length src)) src"

text \<open>
  The value that the copying constructors build from the characters \<open>s\<close> when the capacity
  is \<open>length s + 1\<close>, as in \<^verbatim>\<open>fixed_string_t<L+1>{ptr, L}\<close>: the characters, the terminating
  zero, the logical length \<open>length s\<close>.
\<close>

definition fixed_string_of :: "string \<Rightarrow> fixed_string_t" where
  "fixed_string_of s =
     \<lparr>data_f = s @ [CHR 0x00], size_f = of_nat (length s), capacity_f = of_nat (length s) + 1\<rparr>"

text \<open>\<^verbatim>\<open>view()\<close>: the first \<^verbatim>\<open>size_\<close> characters of the array.\<close>

definition view :: "fixed_string_t \<Rightarrow> string" where
  "view s = take (unat (size_f s)) (data_f s)"

text \<open>
  \<^verbatim>\<open>rfind\<close>: \<^verbatim>\<open>pos = size_ - 1; if (size_) do { if (data_[pos] == c) break; } while (pos--);\<close>
  The test of \<^verbatim>\<open>pos--\<close> reads the value before the decrement, and the decrement happens
  also when the test fails.
\<close>

function rfind_loop :: "fixed_string_t \<Rightarrow> char \<Rightarrow> size_t \<Rightarrow> size_t" where
  "rfind_loop s c pos =
     (if data_f s ! unat pos = c then pos
      else if pos \<noteq> 0 then rfind_loop s c (pos - 1)
      else pos - 1)"
  by pat_completeness auto
termination
proof (relation "measure (\<lambda>(s, c, pos). unat pos)")
  show "wf (measure (\<lambda>(s, c, pos). unat pos))"
    by simp
next
  fix s :: fixed_string_t and c :: char and pos :: size_t
  assume "pos \<noteq> 0"
  then have "unat (pos - 1) < unat pos"
    by unat_arith
  then show "((s, c, pos - 1), (s, c, pos)) \<in> measure (\<lambda>(s, c, pos). unat pos)"
    by simp
qed

definition rfind :: "fixed_string_t \<Rightarrow> char \<Rightarrow> size_t" where
  "rfind s c = (let pos = size_f s - 1 in if size_f s \<noteq> 0 then rfind_loop s c pos else pos)"

section \<open>Calibration\<close>

text \<open>
  The signature strings (\<^verbatim>\<open>__PRETTY_FUNCTION__\<close>, \<^verbatim>\<open>__FUNCSIG__\<close>) are produced by the
  compiler; they are parameters here: \<open>full_int\<close> and \<open>full_void\<close> are what
  \<^verbatim>\<open>full<int>::get()\<close> and \<^verbatim>\<open>full<void>::get()\<close> return.
\<close>

definition sv_size :: "string \<Rightarrow> size_t" where
  "sv_size s = of_nat (length s)"

text \<open>
  \<^verbatim>\<open>std::string_view::find(const char*)\<close> of the standard library: the index of the first
  occurrence, \<^verbatim>\<open>npos\<close> when there is none.
\<close>

fun sv_find_from :: "string \<Rightarrow> string \<Rightarrow> nat \<Rightarrow> nat option" where
  "sv_find_from [] sub i = (if sub = [] then Some i else None)"
| "sv_find_from (c # cs) sub i =
     (if take (length sub) (c # cs) = sub then Some i else sv_find_from cs sub (Suc i))"

definition sv_find :: "string \<Rightarrow> string \<Rightarrow> size_t" where
  "sv_find s sub = (case sv_find_from s sub 0 of Some i \<Rightarrow> of_nat i | None \<Rightarrow> npos)"

definition name_start_pos :: "string \<Rightarrow> size_t" where
  "name_start_pos full_int = sv_find full_int ''int''"

definition num_appearance :: "string \<Rightarrow> string \<Rightarrow> size_t" where
  "num_appearance full_void full_int = sv_size full_void - sv_size full_int"

definition num_misc_chars :: "string \<Rightarrow> string \<Rightarrow> size_t" where
  "num_misc_chars full_void full_int = sv_size full_void - 4 * num_appearance full_void full_int"

section \<open>Matching a keyword\<close>

definition iskey :: "char \<Rightarrow> bool" where
  "iskey c = ((CHR ''0'' \<le> c \<and> c \<le> CHR ''9'') \<or>
              (CHR ''A'' \<le> c \<and> c \<le> CHR ''Z'') \<or>
              (CHR ''a'' \<le> c \<and> c \<le> CHR ''z'') \<or>
              (CHR ''_'' = c))"

text \<open>
  \<^verbatim>\<open>match\<close>: \<open>sub\<close> is the keyword without its terminating zero, so \<^verbatim>\<open>L = K - 1\<close> is its
  length. The first loop counts the characters that agree.
\<close>

function match_loop :: "fixed_string_t \<Rightarrow> size_t \<Rightarrow> size_t \<Rightarrow> string \<Rightarrow> size_t \<Rightarrow> size_t" where
  "match_loop str pos len sub n =
     (if pos + n < len \<and> n < of_nat (length sub) then
        (if data_f str ! unat (pos + n) \<noteq> sub ! unat n then n
         else match_loop str pos len sub (n + 1))
      else n)"
  by pat_completeness auto
termination
proof (relation "measure (\<lambda>(str, pos, len, sub, n). unat (of_nat (length sub) :: size_t) - unat n)")
  show "wf (measure (\<lambda>(str, pos, len, sub, n). unat (of_nat (length sub) :: size_t) - unat n))"
    by simp
next
  fix str :: fixed_string_t and pos len n :: size_t and sub :: string
  assume "pos + n < len \<and> n < of_nat (length sub)"
  then have "unat (n + 1) = unat n + 1" and "unat n < unat (of_nat (length sub) :: size_t)"
    by unat_arith+
  then show "((str, pos, len, sub, n + 1), (str, pos, len, sub, n))
             \<in> measure (\<lambda>(str, pos, len, sub, n). unat (of_nat (length sub) :: size_t) - unat n)"
    by simp
qed

definition match :: "fixed_string_t \<Rightarrow> size_t \<Rightarrow> size_t \<Rightarrow> string \<Rightarrow> size_t" where
  "match str pos len sub =
     (let L = of_nat (length sub);
          n = match_loop str pos len sub 0
      in if n \<noteq> L then 0
         else if pos + L \<noteq> len then
           (if iskey (data_f str ! unat (pos + L)) then 0
            else if data_f str ! unat (pos + L) = CHR '' '' then n + 1
            else n)
         else n)"

section \<open>The raw type name\<close>

text \<open>
  \<^verbatim>\<open>impl<T>::raw()\<close>. \<open>func\<close> is the signature string of \<^verbatim>\<open>impl<T>::raw\<close> itself (what
  \<^verbatim>\<open>NSFX_FUNCTION\<close> expands to there), without its terminating zero. The division is part of
  the initialiser of a \<^verbatim>\<open>constexpr\<close> variable, so a zero divisor stops the build; so does
  forming the pointer \<^verbatim>\<open>full.data_ + name_start_pos\<close> beyond the end of the array.
\<close>

definition raw :: "string \<Rightarrow> string \<Rightarrow> string \<Rightarrow> error + fixed_string_t" where
  "raw full_int full_void func =
     (case to_fixed_string (func @ [CHR 0x00]) of
        Inl e \<Rightarrow> Inl e
      | Inr full \<Rightarrow>
          if num_appearance full_void full_int = 0 then Inl Division_By_Zero
          else
            let N = capacity_f full;
                L = (N - 1 - num_misc_chars full_void full_int) div num_appearance full_void full_int
            in if unat (name_start_pos full_int) \<le> length (data_f full)
               then fixed_string_ptr (L + 1) (drop (unat (name_start_pos full_int)) (data_f full)) L
               else Inl Out_Of_Bounds)"

text \<open>
  Modelled from the spec: the shape of a signature string, which the compiler produces and
  the source only shows in comments. The boilerplate pieces \<open>bs\<close> are printed in order with
  the type name between each two of them, so the name appears \<open>length bs - 1\<close> times.
\<close>

fun signature_of :: "string list \<Rightarrow> string \<Rightarrow> string" where
  "signature_of [] nm = []"
| "signature_of [b] nm = b"
| "signature_of (b # bs) nm = b @ nm @ signature_of bs nm"

section \<open>The tidy type name\<close>

text \<open>The branches of the conditional compilation.\<close>

datatype compiler = Clang | GCC | MSVC | Unsupported

text \<open>
  The two inner loops of \<^verbatim>\<open>dry()\<close>,
  \<^verbatim>\<open>while (pos < len && iskey(name[pos])) { ++size; ++pos; }\<close> and the same with
  \<^verbatim>\<open>!iskey(name[pos])\<close>, are \<open>dry_run iskey\<close> and \<open>dry_run (\<lambda>c. \<not> iskey c)\<close>.
\<close>

function dry_run :: "(char \<Rightarrow> bool) \<Rightarrow> fixed_string_t \<Rightarrow> size_t \<Rightarrow> size_t \<Rightarrow> size_t \<Rightarrow> size_t \<times> size_t" where
  "dry_run p name len size' pos =
     (if pos < len \<and> p (data_f name ! unat pos)
      then dry_run p name len (size' + 1) (pos + 1)
      else (size', pos))"
  by pat_completeness auto
termination
proof (relation "measure (\<lambda>(p, name, len, size', pos). unat len - unat pos)")
  show "wf (measure (\<lambda>(p, name, len, size', pos). unat len - unat pos))"
    by simp
next
  fix p :: "char \<Rightarrow> bool" and name :: fixed_string_t and len size' pos :: size_t
  assume "pos < len \<and> p (data_f name ! unat pos)"
  then have "unat (pos + 1) = unat pos + 1" and "unat pos < unat len"
    by unat_arith+
  then show "((p, name, len, size' + 1, pos + 1), (p, name, len, size', pos))
             \<in> measure (\<lambda>(p, name, len, size', pos). unat len - unat pos)"
    by simp
qed

text \<open>
  The \<^verbatim>\<open>while (true)\<close> loop of \<^verbatim>\<open>dry()\<close>, from its state \<^verbatim>\<open>(size, pos)\<close>; \<open>None\<close> is a loop
  that does not end.
\<close>

partial_function (option) dry_loop :: "fixed_string_t \<Rightarrow> size_t \<Rightarrow> size_t \<Rightarrow> size_t \<Rightarrow> (size_t \<times> size_t) option" where
  "dry_loop name len size' pos =
     (if match name pos len ''enum'' \<noteq> 0
      then dry_loop name len size' (pos + match name pos len ''enum'')
      else if match name pos len ''class'' \<noteq> 0
      then dry_loop name len size' (pos + match name pos len ''class'')
      else if match name pos len ''struct'' \<noteq> 0
      then dry_loop name len size' (pos + match name pos len ''struct'')
      else if match name pos len ''__cdecl'' \<noteq> 0
      then dry_loop name len size' (pos + match name pos len ''__cdecl'')
      else
        (case dry_run iskey name len size' pos of (size1, pos1) \<Rightarrow>
         case dry_run (\<lambda>c. \<not> iskey c) name len size1 pos1 of (size2, pos2) \<Rightarrow>
           if pos2 = len then Some (size2, pos2)
           else dry_loop name len size2 pos2))"

declare dry_loop.simps [code]

text \<open>\<^verbatim>\<open>while (pos && name[pos - 1] == ' ') { --pos; --size; }\<close>\<close>

function dry_strip :: "fixed_string_t \<Rightarrow> size_t \<Rightarrow> size_t \<Rightarrow> size_t" where
  "dry_strip name size' pos =
     (if pos \<noteq> 0 \<and> data_f name ! unat (pos - 1) = CHR '' ''
      then dry_strip name (size' - 1) (pos - 1)
      else size')"
  by pat_completeness auto
termination
proof (relation "measure (\<lambda>(name, size', pos). unat pos)")
  show "wf (measure (\<lambda>(name, size', pos). unat pos))"
    by simp
next
  fix name :: fixed_string_t and size' pos :: size_t
  assume "pos \<noteq> 0 \<and> data_f name ! unat (pos - 1) = CHR '' ''"
  then have "unat (pos - 1) < unat pos"
    by unat_arith
  then show "((name, size' - 1, pos - 1), (name, size', pos)) \<in> measure (\<lambda>(name, size', pos). unat pos)"
    by simp
qed

text \<open>\<^verbatim>\<open>impl<T>::dry()\<close>, applied to the raw name \<open>name\<close>.\<close>

definition dry_msvc :: "fixed_string_t \<Rightarrow> size_t option" where
  "dry_msvc name =
     (let len = capacity_f name - 1 in
      case dry_loop name len 0 0 of
        None \<Rightarrow> None
      | Some (size', pos) \<Rightarrow> Some (dry_strip name size' pos))"

definition dry :: "compiler \<Rightarrow> fixed_string_t \<Rightarrow> (error + size_t) option" where
  "dry c name =
     (case c of
        MSVC \<Rightarrow> map_option Inr (dry_msvc name)
      | Unsupported \<Rightarrow> Some (Inl Unsupported_Compiler)
      | _ \<Rightarrow> Some (Inr (capacity_f name)))"

text \<open>
  The two inner loops of \<^verbatim>\<open>tidy()\<close>,
  \<^verbatim>\<open>while (dst.size_ < L && pos < len && iskey(name[pos])) dst[dst.size_++] = name[pos++];\<close>
  and the same with \<^verbatim>\<open>!iskey(name[pos])\<close>. A write outside \<^verbatim>\<open>dst\<close> is an error.
\<close>

function tidy_run :: "(char \<Rightarrow> bool) \<Rightarrow> fixed_string_t \<Rightarrow> size_t \<Rightarrow> size_t \<Rightarrow> fixed_string_t \<Rightarrow> size_t
    \<Rightarrow> error + fixed_string_t \<times> size_t" where
  "tidy_run p name len L dst pos =
     (if size_f dst < L \<and> pos < len \<and> p (data_f name ! unat pos) then
        (if unat (size_f dst) < length (data_f dst)
         then tidy_run p name len L
                (dst\<lparr>data_f := (data_f dst)[unat (size_f dst) := data_f name ! unat pos],
                     size_f := size_f dst + 1\<rparr>)
                (pos + 1)
         else Inl Out_Of_Bounds)
      else Inr (dst, pos))"
  by pat_completeness auto
termination
proof (relation "measure (\<lambda>(p, name, len, L, dst, pos). unat len - unat pos)")
  show "wf (measure (\<lambda>(p, name, len, L, dst, pos). unat len - unat pos))"
    by simp
next
  fix p :: "char \<Rightarrow> bool" and name dst :: fixed_string_t and len L pos :: size_t
  assume "size_f dst < L \<and> pos < len \<and> p (data_f name ! unat pos)"
  then have "unat (pos + 1) = unat pos + 1" and "unat pos < unat len"
    by unat_arith+
  then show "((p, name, len, L,
               dst\<lparr>data_f := (data_f dst)[unat (size_f dst) := data_f name ! unat pos],
                    size_f := size_f dst + 1\<rparr>, pos + 1), (p, name, len, L, dst, pos))
             \<in> measure (\<lambda>(p, name, len, L, dst, pos). unat len - unat pos)"
    by simp
qed

text \<open>The \<^verbatim>\<open>while (true)\<close> loop of \<^verbatim>\<open>tidy()\<close>, from its state \<^verbatim>\<open>(dst, pos)\<close>.\<close>

partial_function (option) tidy_loop :: "fixed_string_t \<Rightarrow> size_t \<Rightarrow> size_t \<Rightarrow> fixed_string_t \<Rightarrow> size_t
    \<Rightarrow> (error + fixed_string_t \<times> size_t) option" where
  "tidy_loop name len L dst pos =
     (if match name pos len ''enum'' \<noteq> 0
      then tidy_loop name len L dst (pos + match name pos len ''enum'')
      else if match name pos len ''class'' \<noteq> 0
      then tidy_loop name len L dst (pos + match name pos len ''class'')
      else if match name pos len ''struct'' \<noteq> 0
      then tidy_loop name len L dst (pos + match name pos len ''struct'')
      else if match name pos len ''__cdecl'' \<noteq> 0
      then tidy_loop name len L dst (pos + match name pos len ''__cdecl'')
      else
        (case tidy_run iskey name len L dst pos of
           Inl e \<Rightarrow> Some (Inl e)
         | Inr (dst1, pos1) \<Rightarrow>
             (case tidy_run (\<lambda>c. \<not> iskey c) name len L dst1 pos1 of
                Inl e \<Rightarrow> Some (Inl e)
              | Inr (dst2, pos2) \<Rightarrow>
                  if size_f dst2 = L \<or> pos2 = len then Some (Inr (dst2, pos2))
                  else tidy_loop name len L dst2 pos2)))"

declare tidy_loop.simps [code]

text \<open>
  \<^verbatim>\<open>impl<T>::tidy()\<close>, applied to the raw name \<open>name\<close>. With MSVC the destination is a
  \<^verbatim>\<open>fixed_string_t<L+1>\<close> for \<^verbatim>\<open>L = dry()\<close>, and \<^verbatim>\<open>dst[L] = '\0'\<close> is written at the end.
\<close>

definition tidy_msvc :: "fixed_string_t \<Rightarrow> (error + fixed_string_t) option" where
  "tidy_msvc name =
     (let len = capacity_f name - 1 in
      case dry_msvc name of
        None \<Rightarrow> None
      | Some L \<Rightarrow>
          (case tidy_loop name len L (fixed_string_empty (L + 1)) 0 of
             None \<Rightarrow> None
           | Some (Inl e) \<Rightarrow> Some (Inl e)
           | Some (Inr (dst, pos)) \<Rightarrow>
               if unat L < length (data_f dst)
               then Some (Inr (dst\<lparr>data_f := (data_f dst)[unat L := CHR 0x00]\<rparr>))
               else Some (Inl Out_Of_Bounds)))"

definition tidy :: "compiler \<Rightarrow> fixed_string_t \<Rightarrow> (error + fixed_string_t) option" where
  "tidy c name =
     (case c of
        MSVC \<Rightarrow> tidy_msvc name
      | Unsupported \<Rightarrow> Some (Inl Unsupported_Compiler)
      | _ \<Rightarrow> Some (Inr name))"

section \<open>The unqualified type name\<close>

text \<open>The type traits that \<^verbatim>\<open>impl<T>::base()\<close> asks of \<^verbatim>\<open>T\<close>.\<close>

record type_traits =
  is_const :: bool
  is_volatile :: bool
  is_array :: bool
  is_pointer :: bool
  is_reference :: bool
  is_function :: bool
  is_member_pointer :: bool

text \<open>\<^verbatim>\<open>impl<T>::base()\<close>, applied to the raw name \<open>name\<close>.\<close>

definition base :: "compiler \<Rightarrow> type_traits \<Rightarrow> fixed_string_t \<Rightarrow> (error + fixed_string_t) option" where
  "base c T name =
     (if is_const T \<or> is_volatile T \<or> is_array T \<or> is_pointer T \<or> is_reference T \<or>
         is_function T \<or> is_member_pointer T
      then tidy c name
      else
        (case tidy c name of
           None \<Rightarrow> None
         | Some (Inl e) \<Rightarrow> Some (Inl e)
         | Some (Inr nm) \<Rightarrow>
             (let pos = rfind nm CHR '':'' in
              if pos = npos then Some (Inr nm)
              else
                let N = capacity_f nm - pos - 1 in
                if unat (pos + 1) \<le> length (data_f nm)
                then Some (fixed_string_ptr N (drop (unat (pos + 1)) (data_f nm)) N)
                else Some (Inl Out_Of_Bounds))))"

section \<open>The interface\<close>

text \<open>
  \<^verbatim>\<open>type_name<T>::raw()\<close>, \<^verbatim>\<open>name()\<close> and \<^verbatim>\<open>base()\<close>, as functions of the compiler, the traits of
  \<^verbatim>\<open>T\<close> and the three signature strings.
\<close>

definition type_name_raw :: "string \<Rightarrow> string \<Rightarrow> string \<Rightarrow> (error + fixed_string_t) option" where
  "type_name_raw full_int full_void func = Some (raw full_int full_void func)"

definition type_name_name :: "compiler \<Rightarrow> string \<Rightarrow> string \<Rightarrow> string \<Rightarrow> (error + fixed_string_t) option" where
  "type_name_name c full_int full_void func =
     (case raw full_int full_void func of Inl e \<Rightarrow> Some (Inl e) | Inr name \<Rightarrow> tidy c name)"

definition type_name_base :: "compiler \<Rightarrow> type_traits \<Rightarrow> string \<Rightarrow> string \<Rightarrow> string
    \<Rightarrow> (error + fixed_string_t) option" where
  "type_name_base c T full_int full_void func =
     (case raw full_int full_void func of Inl e \<Rightarrow> Some (Inl e) | Inr name \<Rightarrow> base c T name)"

section \<open>The stripping on lists of characters\<close>

text \<open>
  The proofs about \<open>dry\<close> and \<open>tidy\<close> go through a description of the two loops on the list
  of the characters that are still to be read. \<open>remaining name len pos\<close> is that list.
\<close>

definition remaining :: "fixed_string_t \<Rightarrow> size_t \<Rightarrow> size_t \<Rightarrow> string" where
  "remaining name len pos = drop (unat pos) (take (unat len) (data_f name))"

text \<open>What \<open>match\<close> returns when \<open>rest\<close> is what remains from \<open>pos\<close> on.\<close>

definition match_at :: "string \<Rightarrow> string \<Rightarrow> nat" where
  "match_at rest sub =
     (if take (length sub) rest = sub then
        (case drop (length sub) rest of
           [] \<Rightarrow> length sub
         | c # _ \<Rightarrow> if iskey c then 0 else if c = CHR '' '' then length sub + 1 else length sub)
      else 0)"

text \<open>The four attempts at the head of the loop body, in their order.\<close>

definition match_first :: "string \<Rightarrow> nat" where
  "match_first rest =
     (if match_at rest ''enum'' \<noteq> 0 then match_at rest ''enum''
      else if match_at rest ''class'' \<noteq> 0 then match_at rest ''class''
      else if match_at rest ''struct'' \<noteq> 0 then match_at rest ''struct''
      else match_at rest ''__cdecl'')"

text \<open>The characters that the loop of \<open>dry\<close> counts and the loop of \<open>tidy\<close> copies.\<close>

function kept :: "string \<Rightarrow> string" where
  "kept rest =
     (if match_first rest \<noteq> 0 then kept (drop (match_first rest) rest)
      else
        takeWhile iskey rest @
        takeWhile (\<lambda>c. \<not> iskey c) (dropWhile iskey rest) @
        (if dropWhile (\<lambda>c. \<not> iskey c) (dropWhile iskey rest) = [] then []
         else kept (dropWhile (\<lambda>c. \<not> iskey c) (dropWhile iskey rest))))"
  by pat_completeness auto
termination
proof (relation "measure length")
  show "wf (measure length)"
    by simp
next
  fix rest :: string
  assume m: "match_first rest \<noteq> 0"
  have "rest \<noteq> []"
  proof
    assume "rest = []"
    then have "match_first rest = 0"
      by (simp add: match_first_def match_at_def)
    with m show False
      by simp
  qed
  with m have "length (drop (match_first rest) rest) < length rest"
    by simp
  then show "(drop (match_first rest) rest, rest) \<in> measure length"
    by simp
next
  fix rest :: string
  assume r: "dropWhile (\<lambda>c. \<not> iskey c) (dropWhile iskey rest) \<noteq> []"
  have "length (dropWhile (\<lambda>c. \<not> iskey c) (dropWhile iskey rest)) < length rest"
  proof (cases rest)
    case Nil
    with r show ?thesis
      by simp
  next
    case (Cons c cs)
    show ?thesis
    proof (cases "iskey c")
      case True
      have "length (dropWhile (\<lambda>c. \<not> iskey c) (dropWhile iskey cs)) \<le> length (dropWhile iskey cs)"
        by (rule length_dropWhile_le)
      also have "\<dots> \<le> length cs"
        by (rule length_dropWhile_le)
      finally show ?thesis
        using Cons True by simp
    next
      case False
      have "length (dropWhile (\<lambda>c. \<not> iskey c) cs) \<le> length cs"
        by (rule length_dropWhile_le)
      then show ?thesis
        using Cons False by simp
    qed
  qed
  then show "(dropWhile (\<lambda>c. \<not> iskey c) (dropWhile iskey rest), rest) \<in> measure length"
    by simp
qed

text \<open>
  The destination of \<open>tidy\<close> after the characters \<open>out\<close> have been copied into a zeroed array
  of capacity \<open>C\<close>.
\<close>

definition filled :: "size_t \<Rightarrow> string \<Rightarrow> fixed_string_t" where
  "filled C out =
     \<lparr>data_f = out @ replicate (unat C - length out) (CHR 0x00), size_f = of_nat (length out),
      capacity_f = C\<rparr>"

text \<open>The number of spaces at the end of a string.\<close>

definition trailing_spaces :: "string \<Rightarrow> nat" where
  "trailing_spaces s = length (takeWhile (\<lambda>c. c = CHR '' '') (rev s))"

section \<open>Whole-word occurrences of the keywords\<close>

definition decoration_keywords :: "string list" where
  "decoration_keywords = [''enum'', ''class'', ''struct'', ''__cdecl'']"

text \<open>
  \<open>w\<close> occurs in \<open>y\<close> at index \<open>i\<close> as a whole word: there is no identifier character right
  before it and none right after it.
\<close>

definition whole_word_at :: "string \<Rightarrow> nat \<Rightarrow> string \<Rightarrow> bool" where
  "whole_word_at y i w =
     (i + length w \<le> length y \<and> take (length w) (drop i y) = w \<and>
      (i = 0 \<or> \<not> iskey (y ! (i - 1))) \<and>
      (i + length w = length y \<or> \<not> iskey (y ! (i + length w))))"

definition has_keyword :: "string \<Rightarrow> bool" where
  "has_keyword y = (\<exists>i<length y. \<exists>w\<in>set decoration_keywords. whole_word_at y i w)"

text \<open>
  The same, by recursion along the string: \<open>p\<close> tells whether the character before the
  string is an identifier character.
\<close>

definition is_token :: "string \<Rightarrow> string \<Rightarrow> bool" where
  "is_token w r = (take (length w) r = w \<and> (case drop (length w) r of [] \<Rightarrow> True | c # _ \<Rightarrow> \<not> iskey c))"

fun keyword_from :: "bool \<Rightarrow> string \<Rightarrow> bool" where
  "keyword_from p [] = False"
| "keyword_from p (c # cs) =
     ((\<not> p \<and> (\<exists>w\<in>set decoration_keywords. is_token w (c # cs))) \<or> keyword_from (iskey c) cs)"

section \<open>Names as the compilers print them\<close>



declare fixed_string_copy.simps [simp del]
declare dry_run.simps [simp del]
declare dry_strip.simps [simp del]
declare tidy_run.simps [simp del]
declare rfind_loop.simps [simp del]
declare match_loop.simps [simp del]
declare kept.simps [simp del]

section \<open>Arithmetic of \<open>size_t\<close>\<close>

lemma unat_of_nat_len64: "n < 2 ^ 64 \<Longrightarrow> unat (of_nat n :: size_t) = n"
  by (simp add: unat_of_nat)

lemma unat_minus_1_len64: "unat (- 1 :: size_t) = 2 ^ 64 - 1"
  by (simp add: unsigned_minus_1_eq_mask mask_eq_exp_minus_1)

lemma unat_not_max: "(L :: size_t) \<noteq> - 1 \<Longrightarrow> unat L + 1 < 2 ^ 64"
proof -
  assume "L \<noteq> - 1"
  then have "unat L \<noteq> unat (- 1 :: size_t)"
    unfolding word_unat_eq_iff .
  then have "unat L \<noteq> 2 ^ 64 - 1"
    unfolding unat_minus_1_len64 .
  moreover have "unat L < 2 ^ 64"
    using unsigned_less [of L, where 'a = nat] by simp
  ultimately show ?thesis
    by linarith
qed

lemma unat_plus_1: "unat (L :: size_t) + 1 < 2 ^ 64 \<Longrightarrow> unat (L + 1) = unat L + 1"
  using unat_add_lem [of L 1] by simp

lemma plus_1_nonzero:
  assumes "unat (L :: size_t) + 1 < 2 ^ 64"
  shows "L + 1 \<noteq> 0"
proof
  assume z: "L + 1 = 0"
  have "unat (L + 1) = unat L + 1"
    using assms by (rule unat_plus_1)
  moreover have "unat (L + 1) = 0"
    unfolding z by simp
  ultimately show False
    by linarith
qed

lemma of_nat_not_max:
  assumes "n + 1 < 2 ^ 64"
  shows "(of_nat n :: size_t) \<noteq> - 1"
proof
  assume "(of_nat n :: size_t) = - 1"
  then have "unat (of_nat n :: size_t) = 2 ^ 64 - 1"
    using unat_minus_1_len64 by simp
  moreover have "unat (of_nat n :: size_t) = n"
    using assms by (intro unat_of_nat_len64) simp
  ultimately show False
    using assms by linarith
qed

section \<open>The copying constructors\<close>

lemma fixed_string_copy_spec:
  "length (data_f s) = unat (capacity_f s) \<Longrightarrow> capacity_f s \<noteq> 0 \<Longrightarrow>
   unat (size_f s) \<le> min (unat len) (unat (capacity_f s) - 1) \<Longrightarrow>
   min (unat len) (unat (capacity_f s) - 1) \<le> length str \<Longrightarrow>
   fixed_string_copy str len s =
     Inr (s\<lparr>data_f := take (unat (size_f s)) (data_f s) @
                      take (min (unat len) (unat (capacity_f s) - 1) - unat (size_f s)) (drop (unat (size_f s)) str) @
                      CHR 0x00 # drop (Suc (min (unat len) (unat (capacity_f s) - 1))) (data_f s),
           size_f := of_nat (min (unat len) (unat (capacity_f s) - 1))\<rparr>)"
proof (induction str len s rule: fixed_string_copy.induct)
  case (1 str len s)
  define m where "m = min (unat len) (unat (capacity_f s) - 1)"
  define k where "k = unat (size_f s)"
  note prems = "1.prems" [folded m_def k_def]
  have c1: "unat (capacity_f s - 1) = unat (capacity_f s) - 1"
    using "1.prems"(2) by (rule unat_minus_one)
  have cpos: "0 < unat (capacity_f s)"
    using "1.prems"(2) by (simp add: unat_gt_0)
  have mcap: "m < unat (capacity_f s)"
    unfolding m_def using cpos by simp
  show ?case
    unfolding m_def [symmetric] k_def [symmetric]
  proof (cases "size_f s < len \<and> size_f s < capacity_f s - 1")
    case True
    then have klt: "k < m"
      unfolding word_less_nat_alt c1 m_def k_def by simp
    then have kstr: "k < length str" and kdat: "k < length (data_f s)"
      using prems(4,1) mcap by linarith+
    have "k + 1 < 2 ^ 64"
      using klt unsigned_less [of len, where 'a = nat] unfolding m_def by simp
    then have k1: "unat (size_f s + 1) = Suc k"
      using unat_add_lem [of "size_f s" 1] unfolding k_def by simp
    define s' where "s' = s\<lparr>data_f := (data_f s)[k := str ! k], size_f := size_f s + 1\<rparr>"
    have step: "fixed_string_copy str len s = fixed_string_copy str len s'"
      using True kstr kdat unfolding s'_def k_def by (subst fixed_string_copy.simps) simp
    have s'_data: "data_f s' = (data_f s)[k := str ! k]" and s'_cap: "capacity_f s' = capacity_f s"
      and s'_size: "unat (size_f s') = Suc k"
      unfolding s'_def using k1 by simp_all
    have p1: "length (data_f s') = unat (capacity_f s')"
      using "1.prems"(1) unfolding s'_data s'_cap by simp
    have p2: "capacity_f s' \<noteq> 0"
      using "1.prems"(2) unfolding s'_cap .
    have p3: "unat (size_f s') \<le> min (unat len) (unat (capacity_f s') - 1)"
      unfolding s'_size s'_cap m_def [symmetric] using klt by linarith
    have p4: "min (unat len) (unat (capacity_f s') - 1) \<le> length str"
      unfolding s'_cap by (rule "1.prems"(4))
    have t1: "take (Suc k) ((data_f s)[k := str ! k]) = take k (data_f s) @ [str ! k]"
      using kdat by (simp add: take_Suc_conv_app_nth)
    have t2: "take (m - k) (drop k str) = str ! k # take (m - Suc k) (drop (Suc k) str)"
    proof -
      have "m - k = Suc (m - Suc k)"
        using klt by linarith
      moreover have "drop k str = str ! k # drop (Suc k) str"
        using kstr by (simp add: Cons_nth_drop_Suc)
      ultimately show ?thesis
        by simp
    qed
    have t3: "drop (Suc m) ((data_f s)[k := str ! k]) = drop (Suc m) (data_f s)"
    proof (rule drop_update_cancel)
      show "k < Suc m"
        using klt by linarith
    qed
    note ih0 = "1.IH" [OF True conjI [OF kstr kdat, unfolded k_def]
        p1 [unfolded s'_def k_def] p2 [unfolded s'_def k_def] p3 [unfolded s'_def k_def] p4 [unfolded s'_def k_def]]
    have ih: "fixed_string_copy str len s' =
      Inr (s'\<lparr>data_f := take (Suc k) ((data_f s)[k := str ! k]) @ take (m - Suc k) (drop (Suc k) str) @
                 CHR 0x00 # drop (Suc m) ((data_f s)[k := str ! k]), size_f := of_nat m\<rparr>)"
      using ih0 k1 unfolding s'_def k_def m_def by simp
    show "fixed_string_copy str len s =
      Inr (s\<lparr>data_f := take k (data_f s) @ take (m - k) (drop k str) @ CHR 0x00 # drop (Suc m) (data_f s),
             size_f := of_nat m\<rparr>)"
    proof -
      have "fixed_string_copy str len s =
        Inr (s'\<lparr>data_f := take (Suc k) ((data_f s)[k := str ! k]) @ take (m - Suc k) (drop (Suc k) str) @
                 CHR 0x00 # drop (Suc m) ((data_f s)[k := str ! k]), size_f := of_nat m\<rparr>)"
        using step ih by (rule trans)
      also have "s'\<lparr>data_f := take (Suc k) ((data_f s)[k := str ! k]) @ take (m - Suc k) (drop (Suc k) str) @
                 CHR 0x00 # drop (Suc m) ((data_f s)[k := str ! k]), size_f := of_nat m\<rparr> =
          s\<lparr>data_f := take k (data_f s) @ take (m - k) (drop k str) @ CHR 0x00 # drop (Suc m) (data_f s),
             size_f := of_nat m\<rparr>"
        unfolding t1 t2 t3 s'_def by simp
      finally show ?thesis .
    qed
  next
    case False
    then have "\<not> k < m"
      unfolding word_less_nat_alt c1 m_def k_def by simp
    with prems(3) have km: "k = m"
      by linarith
    have mdat: "m < length (data_f s)"
      using "1.prems"(1) mcap by simp
    have sz: "of_nat m = size_f s"
      unfolding km [symmetric] k_def by simp
    have res: "fixed_string_copy str len s = Inr (s\<lparr>data_f := (data_f s)[m := CHR 0x00]\<rparr>)"
    proof -
      have "fixed_string_copy str len s =
          (if unat (size_f s) < length (data_f s)
           then Inr (s\<lparr>data_f := (data_f s)[unat (size_f s) := CHR 0x00]\<rparr>)
           else Inl Out_Of_Bounds)"
        by (subst fixed_string_copy.simps) (simp only: False if_False)
      then show ?thesis
        using mdat unfolding km [symmetric] k_def by simp
    qed
    have u: "(data_f s)[m := CHR 0x00] = take m (data_f s) @ CHR 0x00 # drop (Suc m) (data_f s)"
      using mdat by (simp add: upd_conv_take_nth_drop)
    show "fixed_string_copy str len s =
      Inr (s\<lparr>data_f := take k (data_f s) @ take (m - k) (drop k str) @ CHR 0x00 # drop (Suc m) (data_f s),
             size_f := of_nat m\<rparr>)"
      unfolding res sz u km by simp
  qed
qed

lemma fixed_string_ptr_spec:
  assumes "N \<noteq> 0" and "min (unat len) (unat N - 1) \<le> length str"
  shows "fixed_string_ptr N str len =
    Inr \<lparr>data_f = take (min (unat len) (unat N - 1)) str @
                  replicate (unat N - min (unat len) (unat N - 1)) (CHR 0x00),
         size_f = of_nat (min (unat len) (unat N - 1)), capacity_f = N\<rparr>"
proof -
  define m where "m = min (unat len) (unat N - 1)"
  have npos: "0 < unat N"
    using assms(1) by (simp add: unat_gt_0)
  then have mN: "m < unat N"
    unfolding m_def by simp
  have r: "CHR 0x00 # drop (Suc m) (replicate (unat N) (CHR 0x00)) = replicate (unat N - m) (CHR 0x00)"
  proof -
    have "unat N - m = Suc (unat N - Suc m)"
      using mN by linarith
    then show ?thesis
      by simp
  qed
  have "fixed_string_copy str len (fixed_string_empty N) =
     Inr ((fixed_string_empty N)\<lparr>data_f := take (unat (size_f (fixed_string_empty N))) (data_f (fixed_string_empty N)) @
                      take (min (unat len) (unat (capacity_f (fixed_string_empty N)) - 1) - unat (size_f (fixed_string_empty N)))
                        (drop (unat (size_f (fixed_string_empty N))) str) @
                      CHR 0x00 # drop (Suc (min (unat len) (unat (capacity_f (fixed_string_empty N)) - 1))) (data_f (fixed_string_empty N)),
           size_f := of_nat (min (unat len) (unat (capacity_f (fixed_string_empty N)) - 1))\<rparr>)"
    using assms by (intro fixed_string_copy_spec) (simp_all add: fixed_string_empty_def)
  then have "fixed_string_copy str len (fixed_string_empty N) =
     Inr \<lparr>data_f = take m str @ CHR 0x00 # drop (Suc m) (replicate (unat N) (CHR 0x00)),
          size_f = of_nat m, capacity_f = N\<rparr>"
    unfolding m_def by (simp add: fixed_string_empty_def)
  then show ?thesis
    unfolding fixed_string_ptr_def m_def [symmetric] r .
qed

lemma fixed_string_ptr_exact:
  assumes "L \<noteq> - 1" and "unat L \<le> length str"
  shows "fixed_string_ptr (L + 1) str L = Inr (fixed_string_of (take (unat L) str))"
proof -
  have b: "unat L + 1 < 2 ^ 64"
    using assms(1) by (rule unat_not_max)
  then have u: "unat (L + 1) = unat L + 1"
    by (rule unat_plus_1)
  have nz: "L + 1 \<noteq> 0"
    using b by (rule plus_1_nonzero)
  have m: "min (unat L) (unat (L + 1) - 1) = unat L"
    unfolding u by simp
  have len: "length (take (unat L) str) = unat L"
    using assms(2) by simp
  have d: "unat (L + 1) - unat L = Suc 0"
    unfolding u by simp
  have "fixed_string_ptr (L + 1) str L =
    Inr \<lparr>data_f = take (unat L) str @ replicate (unat (L + 1) - unat L) (CHR 0x00),
         size_f = of_nat (unat L), capacity_f = L + 1\<rparr>"
    using fixed_string_ptr_spec [OF nz, of L str] assms(2) unfolding m .
  then show ?thesis
    unfolding fixed_string_of_def len d by simp
qed

lemma to_fixed_string_literal:
  assumes "length s + 1 < 2 ^ 64"
  shows "to_fixed_string (s @ [CHR 0x00]) = Inr (fixed_string_of s)"
proof -
  define L :: size_t where "L = of_nat (length s)"
  have l: "unat L = length s"
    unfolding L_def using assms by (intro unat_of_nat_len64) simp
  have nm: "L \<noteq> - 1"
    unfolding L_def using assms by (rule of_nat_not_max)
  have e1: "(of_nat (length (s @ [CHR 0x00])) :: size_t) = L + 1"
    unfolding L_def by simp
  have e2: "L + 1 - 1 = L"
    by simp
  have "to_fixed_string (s @ [CHR 0x00]) = fixed_string_ptr (L + 1) (s @ [CHR 0x00]) L"
    unfolding to_fixed_string_def fixed_string_lit_def fixed_string_ptr_def e1 e2 ..
  also have "\<dots> = Inr (fixed_string_of (take (unat L) (s @ [CHR 0x00])))"
    using nm by (rule fixed_string_ptr_exact) (simp add: l)
  also have "take (unat L) (s @ [CHR 0x00]) = s"
    unfolding l by simp
  finally show ?thesis .
qed

section \<open>Calibration consistency\<close>

text \<open>
  C3. With \<open>num_appearance = L_void - L_int\<close> and \<open>num_misc_chars = L_void - 4 * num_appearance\<close>,
  both \<open>num_misc_chars + num_appearance * 3 = L_int\<close> and
  \<open>num_misc_chars + num_appearance * 4 = L_void\<close> hold, in the wrapping arithmetic of
  \<^verbatim>\<open>std::size_t\<close>, for any two sentinel signatures.
\<close>

theorem calibration_consistency:
  "num_misc_chars full_void full_int + num_appearance full_void full_int * 3 = sv_size full_int \<and>
   num_misc_chars full_void full_int + num_appearance full_void full_int * 4 = sv_size full_void"
  by (simp add: num_misc_chars_def num_appearance_def)

section \<open>Backward search\<close>

lemma rfind_loop_spec:
  "(if \<exists>i\<le>unat pos. data_f s ! i = c
    then unat (rfind_loop s c pos) \<le> unat pos \<and> data_f s ! unat (rfind_loop s c pos) = c \<and>
         (\<forall>j. unat (rfind_loop s c pos) < j \<and> j \<le> unat pos \<longrightarrow> data_f s ! j \<noteq> c)
    else rfind_loop s c pos = - 1)"
proof (induction s c pos rule: rfind_loop.induct)
  case (1 s c pos)
  show ?case
  proof (cases "data_f s ! unat pos = c")
    case True
    then have "rfind_loop s c pos = pos" by (subst rfind_loop.simps) simp
    with True show ?thesis by auto
  next
    case nomatch: False
    show ?thesis
    proof (cases "pos = 0")
      case True
      with nomatch have "rfind_loop s c pos = - 1" by (subst rfind_loop.simps) simp
      with nomatch True show ?thesis by simp
    next
      case False
      then have u: "unat (pos - 1) = unat pos - 1" and p: "0 < unat pos"
        by (simp_all add: unat_minus_one unat_gt_0)
      have ex: "(\<exists>i\<le>unat pos. data_f s ! i = c) = (\<exists>i\<le>unat pos - 1. data_f s ! i = c)" (is "?A = ?B")
      proof
        assume ?A
        then obtain i where i: "i \<le> unat pos" "data_f s ! i = c" by blast
        with nomatch have "i \<noteq> unat pos" by auto
        with i(1) have "i \<le> unat pos - 1" by linarith
        with i show ?B by blast
      next
        assume ?B
        then obtain i where i: "i \<le> unat pos - 1" "data_f s ! i = c" by blast
        from i(1) have "i \<le> unat pos" by linarith
        with i show ?A by blast
      qed
      have step: "rfind_loop s c pos = rfind_loop s c (pos - 1)"
        using nomatch False by (subst rfind_loop.simps) simp
      show ?thesis
      proof (cases ?B)
        case True
        with "1.IH" [OF nomatch False] u
        have r: "unat (rfind_loop s c (pos - 1)) \<le> unat pos - 1"
          "data_f s ! unat (rfind_loop s c (pos - 1)) = c"
          "\<forall>j. unat (rfind_loop s c (pos - 1)) < j \<and> j \<le> unat pos - 1 \<longrightarrow> data_f s ! j \<noteq> c"
          by simp_all
        have "\<forall>j. unat (rfind_loop s c (pos - 1)) < j \<and> j \<le> unat pos \<longrightarrow> data_f s ! j \<noteq> c"
        proof (intro allI impI)
          fix j assume j: "unat (rfind_loop s c (pos - 1)) < j \<and> j \<le> unat pos"
          show "data_f s ! j \<noteq> c"
          proof (cases "j = unat pos")
            case True with nomatch show ?thesis by simp
          next
            case False
            with j have "j \<le> unat pos - 1" by linarith
            with j r(3) show ?thesis by blast
          qed
        qed
        with r True show ?thesis unfolding step ex by simp
      next
        case False
        note nex = this
        from "1.IH" [OF nomatch \<open>pos \<noteq> 0\<close>, unfolded u]
        have "rfind_loop s c (pos - 1) = - 1"
          by (simp only: nex if_False)
        then show ?thesis
          unfolding step ex by (simp only: nex if_False)
      qed
    qed
  qed
qed


lemma rfind_spec:
  assumes "unat (size_f s) < length (data_f s)"
  shows "(c \<in> set (view s) \<longrightarrow>
            unat (rfind s c) < length (view s) \<and> view s ! unat (rfind s c) = c \<and>
            (\<forall>j<length (view s). unat (rfind s c) < j \<longrightarrow> view s ! j \<noteq> c)) \<and>
         (c \<notin> set (view s) \<longrightarrow> rfind s c = npos)"
proof (cases "size_f s = 0")
  case True
  then show ?thesis by (simp add: rfind_def view_def npos_def)
next
  case False
  then have u: "unat (size_f s - 1) = unat (size_f s) - 1" and p: "0 < unat (size_f s)"
    by (simp_all add: unat_minus_one unat_gt_0)
  have len: "length (view s) = unat (size_f s)"
    using assms by (simp add: view_def)
  have nth: "view s ! j = data_f s ! j" if "j < unat (size_f s)" for j
    using that by (simp add: view_def)
  have mem: "(c \<in> set (view s)) = (\<exists>i\<le>unat (size_f s - 1). data_f s ! i = c)" (is "?A = ?B")
  proof
    assume ?A
    then obtain i where i: "i < unat (size_f s)" "view s ! i = c"
      unfolding in_set_conv_nth len by blast
    from i(1) have "i \<le> unat (size_f s - 1)" unfolding u by linarith
    with i nth show ?B by auto
  next
    assume ?B
    then obtain i where i: "i \<le> unat (size_f s - 1)" "data_f s ! i = c" by blast
    from i(1) p have "i < unat (size_f s)" unfolding u by linarith
    with i nth show ?A unfolding in_set_conv_nth len by auto
  qed
  have r: "rfind s c = rfind_loop s c (size_f s - 1)"
    using False by (simp add: rfind_def)
  show ?thesis
  proof (cases ?B)
    case True
    with rfind_loop_spec [of "size_f s - 1" s c]
    have l: "unat (rfind s c) \<le> unat (size_f s) - 1" "data_f s ! unat (rfind s c) = c"
      "\<forall>j. unat (rfind s c) < j \<and> j \<le> unat (size_f s) - 1 \<longrightarrow> data_f s ! j \<noteq> c"
      unfolding r u by simp_all
    from l(1) p have lt: "unat (rfind s c) < unat (size_f s)" by linarith
    have a: "\<forall>j<length (view s). unat (rfind s c) < j \<longrightarrow> view s ! j \<noteq> c"
    proof (intro allI impI)
      fix j assume j: "j < length (view s)" "unat (rfind s c) < j"
      from j(1) have "j \<le> unat (size_f s) - 1" unfolding len by linarith
      with j l(3) have "data_f s ! j \<noteq> c" by blast
      with j nth show "view s ! j \<noteq> c" unfolding len by simp
    qed
    have v: "view s ! unat (rfind s c) = c"
      using nth [OF lt] l(2) by simp
    have lt': "unat (rfind s c) < length (view s)"
      using lt unfolding len .
    have "c \<in> set (view s)"
      using True unfolding mem .
    with lt' v a show ?thesis
      by blast
  next
    case False
    with rfind_loop_spec [of "size_f s - 1" s c] have "rfind s c = npos"
      unfolding r npos_def by simp
    with False show ?thesis
      unfolding mem by blast
  qed
qed

text \<open>
  C5. On a fixed string whose logical length is below its capacity, \<open>rfind\<close> returns the
  largest index below the logical length that holds the character, and \<open>npos\<close> when the
  string is empty or the character does not occur.
\<close>

theorem rfind_last_occurrence:
  assumes "unat (size_f s) < length (data_f s)"
  shows "(c \<in> set (view s) \<longrightarrow>
            unat (rfind s c) < length (view s) \<and> view s ! unat (rfind s c) = c \<and>
            (\<forall>j<length (view s). unat (rfind s c) < j \<longrightarrow> view s ! j \<noteq> c)) \<and>
         (c \<notin> set (view s) \<longrightarrow> rfind s c = npos)"
  using assms by (rule rfind_spec)

theorem rfind_last_occurrence_witness:
  "unat (size_f \<lparr>data_f = ''t::a::S'' @ [CHR 0x00], size_f = 7, capacity_f = 8\<rparr>)
     < length (data_f \<lparr>data_f = ''t::a::S'' @ [CHR 0x00], size_f = 7, capacity_f = 8\<rparr>) \<and>
   CHR '':'' \<in> set (view \<lparr>data_f = ''t::a::S'' @ [CHR 0x00], size_f = 7, capacity_f = 8\<rparr>) \<and>
   view \<lparr>data_f = ''t::a::S'' @ [CHR 0x00], size_f = 7, capacity_f = 8\<rparr> !
     unat (rfind \<lparr>data_f = ''t::a::S'' @ [CHR 0x00], size_f = 7, capacity_f = 8\<rparr> CHR '':'') = CHR '':''"
proof -
  let ?s = "\<lparr>data_f = ''t::a::S'' @ [CHR 0x00], size_f = 7, capacity_f = 8\<rparr>"
  have h: "unat (size_f ?s) < length (data_f ?s)"
    by simp
  have m: "CHR '':'' \<in> set (view ?s)"
    by (simp add: view_def)
  note t = rfind_last_occurrence [OF h, of "CHR '':''", THEN conjunct1, THEN mp, OF m]
  from t have v: "view ?s ! unat (rfind ?s CHR '':'') = CHR '':''"
    by (elim conjE)
  show ?thesis
    apply (intro conjI)
    apply (rule h)
    apply (rule m)
    apply (rule v)
    done
qed

section \<open>Matching a keyword at a position\<close>

lemma match_loop_all:
  "length sub < 2 ^ 64 \<Longrightarrow> unat pos + length sub \<le> unat len \<Longrightarrow>
   \<forall>k<length sub. data_f str ! (unat pos + k) = sub ! k \<Longrightarrow>
   unat n \<le> length sub \<Longrightarrow> match_loop str pos len sub n = of_nat (length sub)"
proof (induction str pos len sub n rule: match_loop.induct)
  case (1 str pos len sub n)
  note assms = "1.prems"(1-3)
  have L: "unat (of_nat (length sub) :: size_t) = length sub"
    using assms(1) by (rule unat_of_nat_len64)
  show ?case
  proof (cases "n < of_nat (length sub)")
    case True
    then have nl: "unat n < length sub"
      unfolding word_less_nat_alt L .
    have "unat pos + unat n < 2 ^ 64"
      using nl assms(2) unsigned_less [of len, where 'a = nat] by simp
    then have pn: "unat (pos + n) = unat pos + unat n"
      by (simp add: unat_add_lem [THEN iffD1])
    have lt: "pos + n < len"
      unfolding word_less_nat_alt pn using nl assms(2) by linarith
    have eq: "data_f str ! unat (pos + n) = sub ! unat n"
      unfolding pn using assms(3) nl by blast
    have n1: "unat (n + 1) = unat n + 1"
      using nl assms(1) by (simp add: unat_add_lem [THEN iffD1])
    have step: "match_loop str pos len sub n = match_loop str pos len sub (n + 1)"
      using lt True eq by (subst match_loop.simps) simp
    have "unat (n + 1) \<le> length sub"
      unfolding n1 using nl by linarith
    with "1.IH" lt True eq assms show ?thesis
      unfolding step by blast
  next
    case False
    then have "length sub \<le> unat n"
      unfolding word_less_nat_alt L by linarith
    with "1.prems"(4) have "unat n = length sub"
      by linarith
    then have "n = of_nat (length sub)"
      unfolding word_unat_eq_iff L .
    moreover have "match_loop str pos len sub n = n"
      using False by (subst match_loop.simps) simp
    ultimately show ?thesis
      by simp
  qed
qed

text \<open>
  C6. Where the keyword \<open>sub\<close> occurs at \<open>pos\<close> inside the first \<open>len\<close> characters:
  \<open>match\<close> returns the keyword's length when the keyword ends the string or is followed by a
  character that is neither an identifier character nor a space, the length plus one when
  it is followed by a space, and 0 when it is followed by an identifier character. The
  result does not depend on the character before \<open>pos\<close>.
\<close>

theorem match_keyword:
  assumes "length sub < 2 ^ 64"
    and "unat len \<le> length (data_f str)"
    and "unat pos + length sub \<le> unat len"
    and "take (length sub) (drop (unat pos) (data_f str)) = sub"
  shows "(unat pos + length sub = unat len \<longrightarrow> match str pos len sub = of_nat (length sub)) \<and>
         (unat pos + length sub < unat len \<longrightarrow>
            match str pos len sub =
              (if iskey (data_f str ! (unat pos + length sub)) then 0
               else if data_f str ! (unat pos + length sub) = CHR '' '' then of_nat (length sub) + 1
               else of_nat (length sub)))"
proof -
  have L: "unat (of_nat (length sub) :: size_t) = length sub"
    using assms(1) by (rule unat_of_nat_len64)
  have occ: "\<forall>k<length sub. data_f str ! (unat pos + k) = sub ! k"
  proof (intro allI impI)
    fix k assume k: "k < length sub"
    then have "sub ! k = take (length sub) (drop (unat pos) (data_f str)) ! k"
      using assms(4) by simp
    also have "\<dots> = data_f str ! (unat pos + k)"
      using k assms(2,3) by simp
    finally show "data_f str ! (unat pos + k) = sub ! k"
      by (rule sym)
  qed
  have loop: "match_loop str pos len sub 0 = of_nat (length sub)"
    using assms(1,3) occ by (rule match_loop_all) simp
  have "unat pos + length sub < 2 ^ 64"
    using assms(3) unsigned_less [of len, where 'a = nat] by simp
  then have pl: "unat (pos + of_nat (length sub)) = unat pos + length sub"
    using unat_add_lem [of pos "of_nat (length sub)"] unfolding L by simp
  have e: "(pos + of_nat (length sub) = len) = (unat pos + length sub = unat len)"
    unfolding word_unat_eq_iff pl ..
  show ?thesis
  proof (intro conjI impI)
    assume "unat pos + length sub = unat len"
    then show "match str pos len sub = of_nat (length sub)"
      unfolding match_def Let_def loop e by simp
  next
    assume "unat pos + length sub < unat len"
    then have "unat pos + length sub \<noteq> unat len"
      by simp
    then show "match str pos len sub =
              (if iskey (data_f str ! (unat pos + length sub)) then 0
               else if data_f str ! (unat pos + length sub) = CHR '' '' then of_nat (length sub) + 1
               else of_nat (length sub))"
      unfolding match_def Let_def loop e pl by simp
  qed
qed

theorem match_keyword_witness:
  "match \<lparr>data_f = ''struct Foo'' @ [CHR 0x00], size_f = 10, capacity_f = 11\<rparr> 0 10 ''struct'' = 7 \<and>
   match \<lparr>data_f = ''structA'' @ [CHR 0x00], size_f = 7, capacity_f = 8\<rparr> 0 7 ''struct'' = 0"
proof -
  let ?s = "\<lparr>data_f = ''struct Foo'' @ [CHR 0x00], size_f = 10, capacity_f = 11\<rparr>"
  let ?t = "\<lparr>data_f = ''structA'' @ [CHR 0x00], size_f = 7, capacity_f = 8\<rparr>"
  have k: "length ''struct'' < 2 ^ 64"
    by simp
  have s2: "unat (10 :: size_t) \<le> length (data_f ?s)" and s3: "unat (0 :: size_t) + length ''struct'' \<le> unat (10 :: size_t)"
    and s4: "take (length ''struct'') (drop (unat (0 :: size_t)) (data_f ?s)) = ''struct''"
    by simp_all
  have t2: "unat (7 :: size_t) \<le> length (data_f ?t)" and t3: "unat (0 :: size_t) + length ''struct'' \<le> unat (7 :: size_t)"
    and t4: "take (length ''struct'') (drop (unat (0 :: size_t)) (data_f ?t)) = ''struct''"
    by simp_all
  have "match ?s 0 10 ''struct'' = 7"
    using match_keyword [OF k s2 s3 s4, THEN conjunct2] by (simp add: iskey_def)
  moreover have "match ?t 0 7 ''struct'' = 0"
    using match_keyword [OF k t2 t3 t4, THEN conjunct2] by (simp add: iskey_def)
  ultimately show ?thesis
    by (rule conjI)
qed

section \<open>The raw type name: the slice and the zero divisor\<close>

lemma fixed_string_copy_error:
  "fixed_string_copy str len s = Inl e \<Longrightarrow> e = Out_Of_Bounds"
proof (induction str len s rule: fixed_string_copy.induct)
  case (1 str len s)
  show ?case
  proof (cases "size_f s < len \<and> size_f s < capacity_f s - 1")
    case loop: True
    show ?thesis
    proof (cases "unat (size_f s) < length str \<and> unat (size_f s) < length (data_f s)")
      case True
      have "fixed_string_copy str len s = fixed_string_copy str len
          (s\<lparr>data_f := (data_f s)[unat (size_f s) := str ! unat (size_f s)], size_f := size_f s + 1\<rparr>)"
        by (subst fixed_string_copy.simps) (simp only: loop True if_True simp_thms)
      with "1.prems" "1.IH" [OF loop True] show ?thesis
        by simp
    next
      case False
      have "fixed_string_copy str len s = Inl Out_Of_Bounds"
        by (subst fixed_string_copy.simps) (simp only: loop False if_True if_False simp_thms)
      with "1.prems" show ?thesis
        by simp
    qed
  next
    case False
    have "fixed_string_copy str len s =
        (if unat (size_f s) < length (data_f s)
         then Inr (s\<lparr>data_f := (data_f s)[unat (size_f s) := CHR 0x00]\<rparr>)
         else Inl Out_Of_Bounds)"
      by (subst fixed_string_copy.simps) (simp only: False if_False simp_thms)
    with "1.prems" show ?thesis
      by (simp split: if_splits)
  qed
qed

text \<open>
  C4. When \<open>num_appearance\<close> is 0 the extraction ends in a build error and yields no string;
  when it is not 0 the division by zero is not the outcome.
\<close>

theorem raw_zero_appearance:
  "(num_appearance full_void full_int = 0 \<longrightarrow> isl (raw full_int full_void func)) \<and>
   (num_appearance full_void full_int \<noteq> 0 \<longrightarrow> raw full_int full_void func \<noteq> Inl Division_By_Zero)"
proof (intro conjI impI)
  assume "num_appearance full_void full_int = 0"
  then show "isl (raw full_int full_void func)"
    unfolding raw_def by (simp split: sum.splits)
next
  assume nz: "num_appearance full_void full_int \<noteq> 0"
  show "raw full_int full_void func \<noteq> Inl Division_By_Zero"
  proof
    assume r: "raw full_int full_void func = Inl Division_By_Zero"
    show False
    proof (cases "to_fixed_string (func @ [CHR 0x00])")
      case (Inl e)
      then have "e = Out_Of_Bounds"
        unfolding to_fixed_string_def fixed_string_lit_def by (rule fixed_string_copy_error)
      with r Inl show False
        unfolding raw_def by simp
    next
      case (Inr full)
      show False
      proof (cases "unat (name_start_pos full_int) \<le> length (data_f full)")
        case True
        with r Inr nz have "\<exists>N str len. fixed_string_ptr N str len = Inl Division_By_Zero"
          unfolding raw_def Let_def by auto
        then obtain N str len where "fixed_string_copy str len (fixed_string_empty N) = Inl Division_By_Zero"
          unfolding fixed_string_ptr_def by blast
        then have "Division_By_Zero = Out_Of_Bounds"
          by (rule fixed_string_copy_error)
        then show False
          by simp
      next
        case False
        with r Inr nz show False
          unfolding raw_def Let_def by simp
      qed
    qed
  qed
qed

theorem raw_zero_appearance_witness:
  "num_appearance ''auto get(void)'' ''auto get(void)'' = 0 \<and>
   isl (raw ''auto get(void)'' ''auto get(void)'' ''auto raw(void)'') \<and>
   num_appearance ''void get()'' ''int get()'' \<noteq> 0 \<and>
   raw ''int get()'' ''void get()'' ''char raw()'' \<noteq> Inl Division_By_Zero"
proof -
  have z: "num_appearance ''auto get(void)'' ''auto get(void)'' = 0"
    by (simp add: num_appearance_def)
  have n: "num_appearance ''void get()'' ''int get()'' \<noteq> 0"
    by (simp add: num_appearance_def sv_size_def)
  note a = raw_zero_appearance [of "''auto get(void)''" "''auto get(void)''" "''auto raw(void)''",
      THEN conjunct1, THEN mp, OF z]
  note b = raw_zero_appearance [of "''void get()''" "''int get()''" "''char raw()''",
      THEN conjunct2, THEN mp, OF n]
  from z a n b show ?thesis
    by (intro conjI)
qed

lemma length_signature_of:
  "length (signature_of bs nm) = sum_list (map length bs) + (length bs - 1) * length nm"
  by (induction bs nm rule: signature_of.induct) simp_all

lemma sv_find_from_bound:
  "\<exists>j. sv_find_from (b @ sub @ r) sub i = Some j \<and> i \<le> j \<and> j \<le> i + length b"
proof (induction b arbitrary: i)
  case Nil
  have t: "take (length sub) (sub @ r) = sub"
    by simp
  show ?case
  proof (cases "sub @ r")
    case Nil
    then show ?thesis
      by simp
  next
    case (Cons a list)
    with t have "take (length sub) (a # list) = sub"
      by simp
    then show ?thesis
      using Cons by simp
  qed
next
  case (Cons c b)
  show ?case
  proof (cases "take (length sub) (c # b @ sub @ r) = sub")
    case True
    then show ?thesis
      by simp
  next
    case False
    from Cons.IH [of "Suc i"] obtain j
      where "sv_find_from (b @ sub @ r) sub (Suc i) = Some j" "Suc i \<le> j" "j \<le> Suc i + length b"
      by blast
    with False show ?thesis
      by simp
  qed
qed

lemma view_fixed_string_of:
  assumes "length s < 2 ^ 64"
  shows "view (fixed_string_of s) = s"
  unfolding view_def fixed_string_of_def using unat_of_nat_len64 [OF assms] by simp

text \<open>
  C1. Let the sentinel signatures and the signature of \<^verbatim>\<open>impl<T>::raw\<close> have the same shape:
  boilerplate pieces of the same lengths, with the type name between each two of them. If
  \<open>num_appearance\<close> is not 0 and the signature fits into \<^verbatim>\<open>std::size_t\<close>, then \<open>raw\<close> is the
  fixed string holding the substring of the signature that starts at \<open>name_start_pos\<close> and
  has the length \<open>(L_T - num_misc_chars) / num_appearance\<close>, and that length is the length of
  the type name.
\<close>

theorem raw_is_slice:
  assumes int: "full_int = signature_of bs ''int''"
    and void: "full_void = signature_of bs ''void''"
    and func: "func = signature_of bs' nm"
    and same: "map length bs' = map length bs"
    and app: "num_appearance full_void full_int \<noteq> 0"
    and fits: "length func + 1 < 2 ^ 64"
  shows "raw full_int full_void func =
           Inr (fixed_string_of
                 (take (unat ((sv_size func - num_misc_chars full_void full_int) div
                              num_appearance full_void full_int))
                       (drop (unat (name_start_pos full_int)) func))) \<and>
         unat ((sv_size func - num_misc_chars full_void full_int) div
               num_appearance full_void full_int) = length nm"
proof -
  define B where "B = sum_list (map length bs)"
  define k where "k = length bs - 1"
  define L where "L = (sv_size func - num_misc_chars full_void full_int) div
                      num_appearance full_void full_int"
  have lens: "length bs' = length bs"
    using same by (metis length_map)
  have li: "length full_int = B + k * 3" and lv: "length full_void = B + k * 4"
    unfolding int void B_def k_def by (simp_all add: length_signature_of)
  have lf: "length func = B + k * length nm"
    unfolding func B_def k_def same [symmetric] lens [symmetric] by (simp add: length_signature_of)
  have na: "num_appearance full_void full_int = of_nat k"
    unfolding num_appearance_def sv_size_def li lv by simp
  have nm: "num_misc_chars full_void full_int = of_nat B"
    unfolding num_misc_chars_def na unfolding sv_size_def lv by simp
  have k0: "k \<noteq> 0"
    using app unfolding na by (rule contrapos_nn) simp
  have num: "sv_size func - num_misc_chars full_void full_int = of_nat (k * length nm)"
    unfolding nm sv_size_def lf by simp
  have kn_lt: "k * length nm < 2 ^ 64"
    using fits unfolding lf by linarith
  have uL: "unat L = length nm"
  proof (cases "length nm = 0")
    case True
    then show ?thesis
      unfolding L_def num by simp
  next
    case False
    then have "1 \<le> length nm"
      by linarith
    then have "k * 1 \<le> k * length nm"
      by (rule mult_le_mono2)
    then have "k \<le> k * length nm"
      by simp
    with kn_lt have "k < 2 ^ 64"
      by linarith
    then have "unat (of_nat k :: size_t) = k"
      by (rule unat_of_nat_len64)
    moreover have "unat (of_nat (k * length nm) :: size_t) = k * length nm"
      using kn_lt by (rule unat_of_nat_len64)
    ultimately show ?thesis
      unfolding L_def num na unat_div using k0 by simp
  qed
  from k0 obtain b0 b1 rest where bs: "bs = b0 # b1 # rest"
    unfolding k_def by (cases bs; cases "tl bs") auto
  from lens bs obtain c0 c1 rest' where bs': "bs' = c0 # c1 # rest'"
    by (cases bs'; cases "tl bs'") auto
  have c0: "length c0 = length b0"
    using same unfolding bs bs' by simp
  have fi: "full_int = b0 @ ''int'' @ signature_of (b1 # rest) ''int''"
    unfolding int bs by simp
  have ff: "func = c0 @ nm @ signature_of (c1 # rest') nm"
    unfolding func bs' by simp
  obtain j where j: "sv_find_from full_int ''int'' 0 = Some j" "j \<le> length b0"
    using sv_find_from_bound [of b0 "''int''" "signature_of (b1 # rest) ''int''" 0]
    unfolding fi by auto
  have jn: "j + length nm \<le> length func"
    using j(2) c0 by (subst ff) simp
  then have "j < 2 ^ 64"
    using fits by linarith
  then have up: "unat (name_start_pos full_int) = j"
    unfolding name_start_pos_def sv_find_def j(1) by (simp add: unat_of_nat_len64)
  have full: "to_fixed_string (func @ [CHR 0x00]) = Inr (fixed_string_of func)"
    using fits by (rule to_fixed_string_literal)
  have cap: "capacity_f (fixed_string_of func) - 1 = sv_size func"
    unfolding fixed_string_of_def sv_size_def by simp
  have dat: "data_f (fixed_string_of func) = func @ [CHR 0x00]"
    unfolding fixed_string_of_def by simp
  have Lmax: "L \<noteq> - 1"
  proof
    assume "L = - 1"
    then have "unat L = 2 ^ 64 - 1"
      using unat_minus_1_len64 by simp
    with uL jn fits show False
      by linarith
  qed
  have Ldrop: "unat L \<le> length (drop j (func @ [CHR 0x00]))"
    unfolding uL using jn by simp
  have slice: "take (unat L) (drop j (func @ [CHR 0x00])) = take (unat L) (drop j func)"
    unfolding uL using jn by simp
  have ptr: "fixed_string_ptr (L + 1) (drop j (func @ [CHR 0x00])) L =
      Inr (fixed_string_of (take (unat L) (drop j func)))"
    using fixed_string_ptr_exact [OF Lmax Ldrop] unfolding slice .
  have jle: "j \<le> length (func @ [CHR 0x00])"
    using jn by simp
  have "raw full_int full_void func = fixed_string_ptr (L + 1) (drop j (func @ [CHR 0x00])) L"
    unfolding raw_def full sum.case Let_def cap dat up L_def [symmetric]
    using app jle by (simp only: if_False if_True)
  then have "raw full_int full_void func = Inr (fixed_string_of (take (unat L) (drop j func)))"
    unfolding ptr .
  then show ?thesis
    unfolding L_def [symmetric] up using uL by simp
qed

theorem raw_is_slice_witness:
  "raw ''static auto nsfx::details::type_name::full<int>::get() [T = int]''
       ''static auto nsfx::details::type_name::full<void>::get() [T = void]''
       ''static auto nsfx::details::type_name::impl<t::S>::raw() [T = t::S]''
     = Inr (fixed_string_of ''t::S'')"
proof -
  let ?bs = "[''static auto nsfx::details::type_name::full<'', ''>::get() [T = '', '']'']"
  let ?bs' = "[''static auto nsfx::details::type_name::impl<'', ''>::raw() [T = '', '']'']"
  let ?int = "''static auto nsfx::details::type_name::full<int>::get() [T = int]''"
  let ?void = "''static auto nsfx::details::type_name::full<void>::get() [T = void]''"
  let ?func = "''static auto nsfx::details::type_name::impl<t::S>::raw() [T = t::S]''"
  have h1: "?int = signature_of ?bs ''int''" and h2: "?void = signature_of ?bs ''void''"
    and h3: "?func = signature_of ?bs' ''t::S''" and h4: "map length ?bs' = map length ?bs"
    by simp_all
  have app: "num_appearance ?void ?int \<noteq> 0"
    by (simp add: num_appearance_def sv_size_def)
  have fits: "length ?func + 1 < 2 ^ 64"
    by simp
  note t = raw_is_slice [OF h1 h2 h3 h4 app fits]
  have start: "unat (name_start_pos ?int) = 43"
    by (simp add: name_start_pos_def sv_find_def)
  have len: "unat ((sv_size ?func - num_misc_chars ?void ?int) div num_appearance ?void ?int) = 4"
    using t [THEN conjunct2] by simp
  have slice: "take 4 (drop 43 ?func) = ''t::S''"
    by simp
  show ?thesis
    using t [THEN conjunct1] unfolding len start slice .
qed

section \<open>The matcher on the remaining characters\<close>

lemma match_loop_iff:
  "length sub < 2 ^ 64 \<Longrightarrow> unat pos + unat n \<le> unat len \<Longrightarrow> unat n \<le> length sub \<Longrightarrow>
   (match_loop str pos len sub n = of_nat (length sub)) =
   (unat pos + length sub \<le> unat len \<and>
    (\<forall>k. unat n \<le> k \<and> k < length sub \<longrightarrow> data_f str ! (unat pos + k) = sub ! k))"
proof (induction str pos len sub n rule: match_loop.induct)
  case (1 str pos len sub n)
  have L: "unat (of_nat (length sub) :: size_t) = length sub"
    using "1.prems"(1) by (rule unat_of_nat_len64)
  have "unat pos + unat n < 2 ^ 64"
    using "1.prems"(2) unsigned_less [of len, where 'a = nat] by simp
  then have pn: "unat (pos + n) = unat pos + unat n"
    by (simp add: unat_add_lem [THEN iffD1])
  have nL: "(n = of_nat (length sub)) = (unat n = length sub)"
    unfolding word_unat_eq_iff L ..
  show ?case
  proof (cases "pos + n < len \<and> n < of_nat (length sub)")
    case cond: True
    then have lt: "unat pos + unat n < unat len" and nl: "unat n < length sub"
      unfolding word_less_nat_alt pn L by simp_all
    have n1: "unat (n + 1) = Suc (unat n)"
      using nl "1.prems"(1) unat_plus_1 [of n] by simp
    show ?thesis
    proof (cases "data_f str ! unat (pos + n) \<noteq> sub ! unat n")
      case True
      have "match_loop str pos len sub n = n"
        by (subst match_loop.simps) (simp only: cond True if_True simp_thms)
      moreover have "n \<noteq> of_nat (length sub)"
        unfolding nL using nl by simp
      moreover have "\<not> (\<forall>k. unat n \<le> k \<and> k < length sub \<longrightarrow> data_f str ! (unat pos + k) = sub ! k)"
        using True nl unfolding pn by blast
      ultimately show ?thesis
        by simp
    next
      case False
      then have eq: "data_f str ! (unat pos + unat n) = sub ! unat n"
        unfolding pn by simp
      have step: "match_loop str pos len sub n = match_loop str pos len sub (n + 1)"
        by (subst match_loop.simps) (simp only: cond False if_True if_False simp_thms)
      have a: "unat pos + unat (n + 1) \<le> unat len" and b: "unat (n + 1) \<le> length sub"
        unfolding n1 using lt nl by simp_all
      have "(\<forall>k. unat n \<le> k \<and> k < length sub \<longrightarrow> data_f str ! (unat pos + k) = sub ! k) =
            (\<forall>k. Suc (unat n) \<le> k \<and> k < length sub \<longrightarrow> data_f str ! (unat pos + k) = sub ! k)"
        using eq by (metis Suc_leI le_eq_less_or_eq Suc_leD)
      then show ?thesis
        unfolding step "1.IH" [OF cond False "1.prems"(1) a b] n1 by simp
    qed
  next
    case False
    have res: "match_loop str pos len sub n = n"
      by (subst match_loop.simps) (simp only: False if_False)
    show ?thesis
    proof (cases "unat n = length sub")
      case True
      then show ?thesis
        unfolding res nL using "1.prems"(2) by auto
    next
      case ne: False
      with "1.prems"(3) have nl: "unat n < length sub"
        by simp
      then have "n < of_nat (length sub)"
        unfolding word_less_nat_alt L .
      with False have "\<not> pos + n < len"
        by simp
      then have "unat len \<le> unat pos + unat n"
        unfolding word_less_nat_alt pn by simp
      with nl have "\<not> unat pos + length sub \<le> unat len"
        by simp
      then show ?thesis
        unfolding res nL using ne by simp
    qed
  qed
qed

lemma take_eq_iff_nth:
  "(take (length sub) rest = sub) = (length sub \<le> length rest \<and> (\<forall>k<length sub. rest ! k = sub ! k))"
proof
  assume t: "take (length sub) rest = sub"
  then have "length (take (length sub) rest) = length sub"
    by simp
  then have l: "length sub \<le> length rest"
    by simp
  have "\<forall>k<length sub. rest ! k = sub ! k"
  proof (intro allI impI)
    fix k assume "k < length sub"
    then have "take (length sub) rest ! k = rest ! k"
      by simp
    then show "rest ! k = sub ! k"
      unfolding t by simp
  qed
  with l show "length sub \<le> length rest \<and> (\<forall>k<length sub. rest ! k = sub ! k)"
    by simp
next
  assume "length sub \<le> length rest \<and> (\<forall>k<length sub. rest ! k = sub ! k)"
  then show "take (length sub) rest = sub"
    by (simp add: list_eq_iff_nth_eq)
qed

lemma remaining_length:
  "unat pos \<le> unat len \<Longrightarrow> unat len \<le> length (data_f name) \<Longrightarrow>
   length (remaining name len pos) = unat len - unat pos"
  unfolding remaining_def by simp

lemma remaining_nth:
  "unat pos + k < unat len \<Longrightarrow> unat len \<le> length (data_f name) \<Longrightarrow>
   remaining name len pos ! k = data_f name ! (unat pos + k)"
  unfolding remaining_def by simp

lemma match_refines:
  assumes sub: "length sub + 1 < 2 ^ 64"
    and pos: "unat pos \<le> unat len"
    and len: "unat len \<le> length (data_f name)"
  shows "unat (match name pos len sub) = match_at (remaining name len pos) sub"
proof -
  define rest where "rest = remaining name len pos"
  have sub': "length sub < 2 ^ 64"
    using sub by linarith
  have L: "unat (of_nat (length sub) :: size_t) = length sub"
    using sub' by (rule unat_of_nat_len64)
  have lr: "length rest = unat len - unat pos"
    unfolding rest_def using pos len by (rule remaining_length)
  have nth: "rest ! k = data_f name ! (unat pos + k)" if "unat pos + k < unat len" for k
    unfolding rest_def using that len by (rule remaining_nth)
  have loop: "(match_loop name pos len sub 0 = of_nat (length sub)) = (take (length sub) rest = sub)"
  proof -
    have "(match_loop name pos len sub 0 = of_nat (length sub)) =
        (unat pos + length sub \<le> unat len \<and>
         (\<forall>k. unat (0 :: size_t) \<le> k \<and> k < length sub \<longrightarrow> data_f name ! (unat pos + k) = sub ! k))"
      using sub' pos by (intro match_loop_iff) simp_all
    also have "\<dots> = (length sub \<le> length rest \<and> (\<forall>k<length sub. rest ! k = sub ! k))"
      unfolding lr using pos nth by auto
    also have "\<dots> = (take (length sub) rest = sub)"
      by (rule take_eq_iff_nth [symmetric])
    finally show ?thesis .
  qed
  show ?thesis
  proof (cases "take (length sub) rest = sub")
    case False
    then have "match_loop name pos len sub 0 \<noteq> of_nat (length sub)"
      unfolding loop .
    then have "match name pos len sub = 0"
      unfolding match_def Let_def by simp
    with False show ?thesis
      unfolding match_at_def rest_def [symmetric] by simp
  next
    case True
    then have ml: "match_loop name pos len sub 0 = of_nat (length sub)"
      unfolding loop .
    from True have "length sub \<le> length rest"
      unfolding take_eq_iff_nth by simp
    then have fit: "unat pos + length sub \<le> unat len"
      unfolding lr using pos by linarith
    then have "unat pos + length sub < 2 ^ 64"
      using unsigned_less [of len, where 'a = nat] by simp
    then have pl: "unat (pos + of_nat (length sub)) = unat pos + length sub"
      using unat_add_lem [of pos "of_nat (length sub)"] unfolding L by simp
    have e: "(pos + of_nat (length sub) = len) = (unat pos + length sub = unat len)"
      unfolding word_unat_eq_iff pl ..
    have l1: "unat (of_nat (length sub) + 1 :: size_t) = length sub + 1"
      using unat_plus_1 [of "of_nat (length sub)"] sub unfolding L by simp
    show ?thesis
    proof (cases "unat pos + length sub = unat len")
      case atend: True
      then have "drop (length sub) rest = []"
        using lr by simp
      moreover have "match name pos len sub = of_nat (length sub)"
        unfolding match_def Let_def ml e using atend by simp
      ultimately show ?thesis
        unfolding match_at_def rest_def [symmetric] using True L by simp
    next
      case more: False
      with fit have lt: "unat pos + length sub < unat len"
        by linarith
      then have "length sub < length rest"
        unfolding lr by linarith
      then have d: "drop (length sub) rest = rest ! length sub # drop (Suc (length sub)) rest"
        by (simp add: Cons_nth_drop_Suc)
      have c: "rest ! length sub = data_f name ! (unat pos + length sub)"
        using lt by (rule nth)
      have "match name pos len sub =
          (if iskey (rest ! length sub) then 0
           else if rest ! length sub = CHR '' '' then of_nat (length sub) + 1
           else of_nat (length sub))"
        unfolding match_def Let_def ml e pl c using more by simp
      then show ?thesis
        unfolding match_at_def rest_def [symmetric] d using True L l1 by simp
    qed
  qed
qed

section \<open>The inner loops on the remaining characters\<close>

lemma remaining_at_end:
  assumes "unat pos \<le> unat len" and "unat len \<le> length (data_f name)"
  shows "(remaining name len pos = []) = (pos = len)"
proof -
  have "(remaining name len pos = []) = (length (remaining name len pos) = 0)"
    by simp
  also have "\<dots> = (unat pos = unat len)"
    unfolding remaining_length [OF assms] using assms(1) by linarith
  also have "\<dots> = (pos = len)"
    by (rule word_unat_eq_iff [symmetric])
  finally show ?thesis .
qed

lemma remaining_Cons:
  assumes "pos < len" and "unat len \<le> length (data_f name)"
  shows "remaining name len pos = data_f name ! unat pos # remaining name len (pos + 1)"
    and "unat (pos + 1) = Suc (unat pos)"
proof -
  have lt: "unat pos < unat len"
    using assms(1) unfolding word_less_nat_alt .
  then have "unat pos + 1 < 2 ^ 64"
    using unsigned_less [of len, where 'a = nat] by simp
  then show p1: "unat (pos + 1) = Suc (unat pos)"
    using unat_plus_1 [of pos] by simp
  have "unat pos < length (take (unat len) (data_f name))"
    using lt assms(2) by simp
  then have "drop (unat pos) (take (unat len) (data_f name)) =
      take (unat len) (data_f name) ! unat pos # drop (Suc (unat pos)) (take (unat len) (data_f name))"
    by (rule Cons_nth_drop_Suc [symmetric])
  moreover have "take (unat len) (data_f name) ! unat pos = data_f name ! unat pos"
    using lt by simp
  ultimately show "remaining name len pos = data_f name ! unat pos # remaining name len (pos + 1)"
    unfolding remaining_def p1 by simp
qed

lemma remaining_advance:
  assumes "unat pos + n \<le> unat len"
  shows "unat (pos + of_nat n) = unat pos + n"
    and "remaining name len (pos + of_nat n) = drop n (remaining name len pos)"
proof -
  have lt: "unat pos + n < 2 ^ 64"
    using assms unsigned_less [of len, where 'a = nat] by simp
  then have "n < 2 ^ 64"
    by linarith
  then have n: "unat (of_nat n :: size_t) = n"
    by (rule unat_of_nat_len64)
  show u: "unat (pos + of_nat n) = unat pos + n"
    using unat_add_lem [of pos "of_nat n"] lt unfolding n by simp
  show "remaining name len (pos + of_nat n) = drop n (remaining name len pos)"
    unfolding remaining_def u by (simp add: add.commute)
qed

lemma dry_run_refines:
  "unat len \<le> length (data_f name) \<Longrightarrow> unat pos \<le> unat len \<Longrightarrow>
   dry_run p name len sz pos =
     (sz + of_nat (length (takeWhile p (remaining name len pos))),
      pos + of_nat (length (takeWhile p (remaining name len pos))))"
proof (induction p name len sz pos rule: dry_run.induct)
  case (1 p name len sz pos)
  show ?case
  proof (cases "pos < len \<and> p (data_f name ! unat pos)")
    case True
    then have lt: "pos < len" and p: "p (data_f name ! unat pos)"
      by simp_all
    note c = remaining_Cons [OF lt "1.prems"(1)]
    have le: "unat (pos + 1) \<le> unat len"
      unfolding c(2) using lt unfolding word_less_nat_alt by simp
    have step: "dry_run p name len sz pos = dry_run p name len (sz + 1) (pos + 1)"
      by (subst dry_run.simps) (simp only: True if_True simp_thms)
    have tw: "takeWhile p (remaining name len pos) =
        data_f name ! unat pos # takeWhile p (remaining name len (pos + 1))"
      unfolding c(1) using p by simp
    show ?thesis
      unfolding step "1.IH" [OF True "1.prems"(1) le] tw by simp
  next
    case False
    have res: "dry_run p name len sz pos = (sz, pos)"
      by (subst dry_run.simps) (simp only: False if_False)
    have "takeWhile p (remaining name len pos) = []"
    proof (cases "pos < len")
      case True
      with False have "\<not> p (data_f name ! unat pos)"
        by simp
      then show ?thesis
        unfolding remaining_Cons(1) [OF True "1.prems"(1)] by simp
    next
      case False
      then have "unat len \<le> unat pos"
        unfolding word_less_nat_alt by simp
      then have "remaining name len pos = []"
        unfolding remaining_def by simp
      then show ?thesis
        by simp
    qed
    then show ?thesis
      unfolding res by simp
  qed
qed

lemma match_at_le: "match_at rest sub \<le> length rest"
proof (cases "take (length sub) rest = sub")
  case False
  then show ?thesis
    unfolding match_at_def by simp
next
  case True
  then have l: "length sub \<le> length rest"
    unfolding take_eq_iff_nth by simp
  show ?thesis
  proof (cases "drop (length sub) rest")
    case Nil
    with True l show ?thesis
      unfolding match_at_def by simp
  next
    case (Cons c cs)
    then have "length (drop (length sub) rest) = Suc (length cs)"
      by simp
    then have "length sub + 1 \<le> length rest"
      by simp
    with True Cons l show ?thesis
      unfolding match_at_def by simp
  qed
qed

lemma match_first_cases:
  "match_first rest = 0 \<or> (\<exists>w\<in>set decoration_keywords. match_first rest = match_at rest w \<and> match_at rest w \<noteq> 0)"
  unfolding match_first_def decoration_keywords_def by auto

lemma match_first_le: "match_first rest \<le> length rest"
  using match_first_cases [of rest] match_at_le [of rest] by auto

lemma match_word:
  assumes "unat pos \<le> unat len" and "unat len \<le> length (data_f name)"
    and "w \<in> set decoration_keywords"
  shows "match name pos len w = of_nat (match_at (remaining name len pos) w)"
    and "(match name pos len w \<noteq> 0) = (match_at (remaining name len pos) w \<noteq> 0)"
proof -
  have "length w + 1 < 2 ^ 64"
    using assms(3) unfolding decoration_keywords_def by auto
  then have u: "unat (match name pos len w) = match_at (remaining name len pos) w"
    using assms(1,2) by (rule match_refines)
  show "match name pos len w = of_nat (match_at (remaining name len pos) w)"
    unfolding u [symmetric] by simp
  show "(match name pos len w \<noteq> 0) = (match_at (remaining name len pos) w \<noteq> 0)"
    unfolding u [symmetric] unat_0_iff ..
qed

section \<open>The counting loop on the remaining characters\<close>

lemma match_first_zero:
  "(match_first rest = 0) =
   (match_at rest ''enum'' = 0 \<and> match_at rest ''class'' = 0 \<and>
    match_at rest ''struct'' = 0 \<and> match_at rest ''__cdecl'' = 0)"
  unfolding match_first_def by auto

lemma dry_loop_step_match:
  assumes pos: "unat pos \<le> unat len" and len: "unat len \<le> length (data_f name)"
    and m: "match_first (remaining name len pos) \<noteq> 0"
  shows "dry_loop name len sz pos =
         dry_loop name len sz (pos + of_nat (match_first (remaining name len pos)))"
proof -
  define rest where "rest = remaining name len pos"
  have kw: "''enum'' \<in> set decoration_keywords" "''class'' \<in> set decoration_keywords"
    "''struct'' \<in> set decoration_keywords" "''__cdecl'' \<in> set decoration_keywords"
    unfolding decoration_keywords_def by simp_all
  note e = match_word [OF pos len kw(1), folded rest_def]
  note c = match_word [OF pos len kw(2), folded rest_def]
  note s = match_word [OF pos len kw(3), folded rest_def]
  note d = match_word [OF pos len kw(4), folded rest_def]
  have unfold: "dry_loop name len sz pos =
     (if match_at rest ''enum'' \<noteq> 0
      then dry_loop name len sz (pos + of_nat (match_at rest ''enum''))
      else if match_at rest ''class'' \<noteq> 0
      then dry_loop name len sz (pos + of_nat (match_at rest ''class''))
      else if match_at rest ''struct'' \<noteq> 0
      then dry_loop name len sz (pos + of_nat (match_at rest ''struct''))
      else if match_at rest ''__cdecl'' \<noteq> 0
      then dry_loop name len sz (pos + of_nat (match_at rest ''__cdecl''))
      else
        (case dry_run iskey name len sz pos of (size1, pos1) \<Rightarrow>
         case dry_run (\<lambda>c. \<not> iskey c) name len size1 pos1 of (size2, pos2) \<Rightarrow>
           if pos2 = len then Some (size2, pos2)
           else dry_loop name len size2 pos2))"
    by (subst dry_loop.simps)
      (simp only: e(1) c(1) s(1) d(1) e(2) [unfolded e(1)] c(2) [unfolded c(1)] s(2) [unfolded s(1)]
         d(2) [unfolded d(1)])
  from m have "\<not> (match_at rest ''enum'' = 0 \<and> match_at rest ''class'' = 0 \<and>
    match_at rest ''struct'' = 0 \<and> match_at rest ''__cdecl'' = 0)"
    unfolding rest_def [symmetric] match_first_zero .
  then show ?thesis
    unfolding rest_def [symmetric] unfold match_first_def by auto
qed

lemma dry_loop_step_run:
  assumes pos: "unat pos \<le> unat len" and len: "unat len \<le> length (data_f name)"
    and m: "match_first (remaining name len pos) = 0"
  shows "dry_loop name len sz pos =
        (case dry_run iskey name len sz pos of (size1, pos1) \<Rightarrow>
         case dry_run (\<lambda>c. \<not> iskey c) name len size1 pos1 of (size2, pos2) \<Rightarrow>
           if pos2 = len then Some (size2, pos2)
           else dry_loop name len size2 pos2)"
proof -
  define rest where "rest = remaining name len pos"
  have kw: "''enum'' \<in> set decoration_keywords" "''class'' \<in> set decoration_keywords"
    "''struct'' \<in> set decoration_keywords" "''__cdecl'' \<in> set decoration_keywords"
    unfolding decoration_keywords_def by simp_all
  note e = match_word(2) [OF pos len kw(1), folded rest_def]
  note c = match_word(2) [OF pos len kw(2), folded rest_def]
  note s = match_word(2) [OF pos len kw(3), folded rest_def]
  note d = match_word(2) [OF pos len kw(4), folded rest_def]
  from m have z: "match_at rest ''enum'' = 0" "match_at rest ''class'' = 0"
    "match_at rest ''struct'' = 0" "match_at rest ''__cdecl'' = 0"
    unfolding rest_def [symmetric] match_first_zero by simp_all
  show ?thesis
    by (subst dry_loop.simps) (simp only: e c s d z simp_thms if_False)
qed

lemma dry_loop_refines:
  assumes len: "unat len \<le> length (data_f name)"
  shows "unat pos \<le> unat len \<Longrightarrow> rest = remaining name len pos \<Longrightarrow>
         dry_loop name len sz pos = Some (sz + of_nat (length (kept rest)), len)"
proof (induction rest arbitrary: pos sz rule: kept.induct)
  case (1 rest)
  note pos = "1.prems"(1)
  note rest = "1.prems"(2)
  show ?case
  proof (cases "match_first rest \<noteq> 0")
    case True
    define n where "n = match_first rest"
    have "n \<le> length rest"
      unfolding n_def by (rule match_first_le)
    then have fit: "unat pos + n \<le> unat len"
      unfolding rest remaining_length [OF pos len] using pos by linarith
    note adv = remaining_advance(1) [OF fit] remaining_advance(2) [OF fit, of name]
    have p': "unat (pos + of_nat n) \<le> unat len"
      unfolding adv(1) by (rule fit)
    have r': "drop n rest = remaining name len (pos + of_nat n)"
      unfolding adv(2) rest ..
    have step: "dry_loop name len sz pos = dry_loop name len sz (pos + of_nat n)"
      using dry_loop_step_match [OF pos len True [unfolded rest]] unfolding n_def rest .
    have k: "kept rest = kept (drop n rest)"
      unfolding n_def by (subst kept.simps) (simp only: True if_True simp_thms)
    show ?thesis
      unfolding step k by (rule "1.IH"(1) [OF True, folded n_def, OF p' r'])
  next
    case False
    then have m0: "match_first (remaining name len pos) = 0"
      unfolding rest by simp
    define a where "a = takeWhile iskey rest"
    define r1 where "r1 = dropWhile iskey rest"
    define b where "b = takeWhile (\<lambda>c. \<not> iskey c) r1"
    define r2 where "r2 = dropWhile (\<lambda>c. \<not> iskey c) r1"
    have la: "length a + length r1 = length rest"
      unfolding a_def r1_def by (metis length_append takeWhile_dropWhile_id)
    have lb: "length b + length r2 = length r1"
      unfolding b_def r2_def by (metis length_append takeWhile_dropWhile_id)
    have r1d: "r1 = drop (length a) rest"
      unfolding a_def r1_def by (rule dropWhile_eq_drop)
    have r2d: "r2 = drop (length b) r1"
      unfolding b_def r2_def by (rule dropWhile_eq_drop)
    have lrest: "length rest = unat len - unat pos"
      unfolding rest by (rule remaining_length [OF pos len])
    have fit1: "unat pos + length a \<le> unat len"
      using la lrest pos by linarith
    note adv1 = remaining_advance(1) [OF fit1] remaining_advance(2) [OF fit1, of name]
    define pos1 where "pos1 = pos + of_nat (length a)"
    have rem1: "remaining name len pos1 = r1"
      unfolding pos1_def adv1(2) r1d rest ..
    have up1: "unat pos1 = unat pos + length a"
      unfolding pos1_def by (rule adv1(1))
    have p1: "unat pos1 \<le> unat len"
      unfolding up1 by (rule fit1)
    have run1: "dry_run iskey name len sz pos = (sz + of_nat (length a), pos1)"
      unfolding dry_run_refines [OF len pos] a_def pos1_def rest ..
    have fit2: "unat pos1 + length b \<le> unat len"
      unfolding up1 using la lb lrest pos by linarith
    note adv2 = remaining_advance(1) [OF fit2] remaining_advance(2) [OF fit2, of name]
    define pos2 where "pos2 = pos1 + of_nat (length b)"
    have rem2: "remaining name len pos2 = r2"
      unfolding pos2_def adv2(2) rem1 r2d ..
    have p2: "unat pos2 \<le> unat len"
      unfolding pos2_def adv2(1) by (rule fit2)
    have run2: "dry_run (\<lambda>c. \<not> iskey c) name len (sz + of_nat (length a)) pos1 =
        (sz + of_nat (length a) + of_nat (length b), pos2)"
      unfolding dry_run_refines [OF len p1] rem1 b_def pos2_def ..
    have atend: "(pos2 = len) = (r2 = [])"
      unfolding rem2 [symmetric] by (rule remaining_at_end [OF p2 len, symmetric])
    have unfold: "dry_loop name len sz pos =
        (if r2 = [] then Some (sz + of_nat (length a) + of_nat (length b), pos2)
         else dry_loop name len (sz + of_nat (length a) + of_nat (length b)) pos2)"
      unfolding dry_loop_step_run [OF pos len m0] run1 run2 prod.case atend ..
    have k: "kept rest = a @ b @ (if r2 = [] then [] else kept r2)"
      unfolding a_def b_def r2_def r1_def by (subst kept.simps) (simp only: False if_False simp_thms)
    show ?thesis
    proof (cases "r2 = []")
      case True
      then have "pos2 = len"
        unfolding atend .
      with True show ?thesis
        unfolding unfold k by simp
    next
      case ne: False
      have "dry_loop name len (sz + of_nat (length a) + of_nat (length b)) pos2 =
          Some (sz + of_nat (length a) + of_nat (length b) + of_nat (length (kept r2)), len)"
        using False ne [unfolded r2_def r1_def] p2 rem2 [symmetric, unfolded r2_def r1_def]
        unfolding r2_def r1_def by (rule "1.IH"(2))
      with ne show ?thesis
        unfolding unfold k by simp
    qed
  qed
qed

section \<open>The trailing spaces and the counting pass\<close>

lemma trailing_spaces_snoc:
  "trailing_spaces (u @ [c]) = (if c = CHR '' '' then Suc (trailing_spaces u) else 0)"
  unfolding trailing_spaces_def by simp

lemma dry_strip_refines:
  "unat pos \<le> length (data_f name) \<Longrightarrow>
   dry_strip name sz pos = sz - of_nat (trailing_spaces (take (unat pos) (data_f name)))"
proof (induction name sz pos rule: dry_strip.induct)
  case (1 name sz pos)
  show ?case
  proof (cases "pos = 0")
    case True
    have "dry_strip name sz pos = sz"
      by (subst dry_strip.simps) (simp only: True simp_thms if_False)
    then show ?thesis
      unfolding True by (simp add: trailing_spaces_def)
  next
    case nz: False
    then have u: "unat (pos - 1) = unat pos - 1" and p: "0 < unat pos"
      by (simp_all add: unat_minus_one unat_gt_0)
    have lt: "unat pos - 1 < length (data_f name)"
      using "1.prems" p by linarith
    have "take (Suc (unat pos - 1)) (data_f name) =
        take (unat pos - 1) (data_f name) @ [data_f name ! (unat pos - 1)]"
      using lt by (rule take_Suc_conv_app_nth)
    then have t: "take (unat pos) (data_f name) =
        take (unat pos - 1) (data_f name) @ [data_f name ! (unat pos - 1)]"
      using p by simp
    show ?thesis
    proof (cases "data_f name ! unat (pos - 1) = CHR '' ''")
      case True
      have cond: "pos \<noteq> 0 \<and> data_f name ! unat (pos - 1) = CHR '' ''"
        using nz True by simp
      have step: "dry_strip name sz pos = dry_strip name (sz - 1) (pos - 1)"
        by (subst dry_strip.simps) (simp only: cond if_True simp_thms)
      have le: "unat (pos - 1) \<le> length (data_f name)"
        unfolding u using lt by linarith
      have ts: "trailing_spaces (take (unat pos) (data_f name)) =
          Suc (trailing_spaces (take (unat pos - 1) (data_f name)))"
        unfolding t trailing_spaces_snoc using True unfolding u by simp
      show ?thesis
        unfolding step "1.IH" [OF cond le] ts u by simp
    next
      case False
      have "dry_strip name sz pos = sz"
        by (subst dry_strip.simps) (simp only: False simp_thms if_False)
      moreover have "trailing_spaces (take (unat pos) (data_f name)) = 0"
        unfolding t trailing_spaces_snoc using False unfolding u by simp
      ultimately show ?thesis
        by simp
    qed
  qed
qed

lemma fixed_string_of_len:
  assumes "length s + 1 < 2 ^ 64"
  shows "capacity_f (fixed_string_of s) - 1 = of_nat (length s)"
    and "unat (of_nat (length s) :: size_t) = length s"
    and "unat (of_nat (length s) :: size_t) \<le> length (data_f (fixed_string_of s))"
    and "take (unat (of_nat (length s) :: size_t)) (data_f (fixed_string_of s)) = s"
    and "remaining (fixed_string_of s) (of_nat (length s)) 0 = s"
proof -
  show "capacity_f (fixed_string_of s) - 1 = of_nat (length s)"
    unfolding fixed_string_of_def by simp
  have "length s < 2 ^ 64"
    using assms by linarith
  then show u: "unat (of_nat (length s) :: size_t) = length s"
    by (rule unat_of_nat_len64)
  show "unat (of_nat (length s) :: size_t) \<le> length (data_f (fixed_string_of s))"
    unfolding u fixed_string_of_def by simp
  show t: "take (unat (of_nat (length s) :: size_t)) (data_f (fixed_string_of s)) = s"
    unfolding u fixed_string_of_def by simp
  show "remaining (fixed_string_of s) (of_nat (length s)) 0 = s"
    unfolding remaining_def t by simp
qed

lemma dry_msvc_fixed_string_of:
  assumes "length s + 1 < 2 ^ 64"
  shows "dry_msvc (fixed_string_of s) =
         Some (of_nat (length (kept s)) - of_nat (trailing_spaces s))"
proof -
  note f = fixed_string_of_len [OF assms]
  have loop: "dry_loop (fixed_string_of s) (of_nat (length s)) 0 0 =
      Some (0 + of_nat (length (kept s)), of_nat (length s))"
    using f(3) by (rule dry_loop_refines) (simp_all add: f(5))
  have strip: "dry_strip (fixed_string_of s) (of_nat (length (kept s))) (of_nat (length s)) =
      of_nat (length (kept s)) - of_nat (trailing_spaces s)"
    using dry_strip_refines [OF f(3), of "of_nat (length (kept s))"] unfolding f(4) .
  show ?thesis
    unfolding dry_msvc_def Let_def f(1) loop using strip by simp
qed

section \<open>The copying loops on the remaining characters\<close>

lemma filled_fields:
  "data_f (filled C out) = out @ replicate (unat C - length out) (CHR 0x00)"
  "size_f (filled C out) = of_nat (length out)"
  "capacity_f (filled C out) = C"
  unfolding filled_def by simp_all

lemma filled_write:
  assumes "length out < unat C"
  shows "(filled C out)\<lparr>data_f := (data_f (filled C out))[length out := x],
                         size_f := size_f (filled C out) + 1\<rparr> = filled C (out @ [x])"
proof -
  have "unat C - length out = Suc (unat C - Suc (length out))"
    using assms by linarith
  then have "(out @ replicate (unat C - length out) (CHR 0x00))[length out := x] =
      (out @ [x]) @ replicate (unat C - length (out @ [x])) (CHR 0x00)"
    by (simp add: list_update_append)
  then show ?thesis
    unfolding filled_def by simp
qed

lemma tidy_run_filled:
  "unat len \<le> length (data_f name) \<Longrightarrow> unat L < unat C \<Longrightarrow>
   unat pos \<le> unat len \<Longrightarrow> dst = filled C out \<Longrightarrow> length out \<le> unat L \<Longrightarrow>
    tidy_run p name len L dst pos =
      Inr (filled C (out @ take (unat L - length out) (takeWhile p (remaining name len pos))),
           pos + of_nat (min (unat L - length out) (length (takeWhile p (remaining name len pos)))))"
proof (induction p name len L dst pos arbitrary: out rule: tidy_run.induct)
  case (1 p name len L dst pos)
  note len = "1.prems"(1) and cap = "1.prems"(2) and pos = "1.prems"(3) and dst = "1.prems"(4)
    and out = "1.prems"(5)
  have "length out < 2 ^ 64"
    using out unsigned_less [of L, where 'a = nat] by simp
  then have uo: "unat (of_nat (length out) :: size_t) = length out"
    by (rule unat_of_nat_len64)
  have sz: "unat (size_f dst) = length out"
    unfolding dst filled_fields uo ..
  have szL: "(size_f dst < L) = (length out < unat L)"
    unfolding word_less_nat_alt sz ..
  have ld: "length (data_f dst) = unat C"
    unfolding dst filled_fields using out cap by simp
  define tw where "tw = takeWhile p (remaining name len pos)"
  show ?case
    unfolding tw_def [symmetric]
  proof (cases "size_f dst < L \<and> pos < len \<and> p (data_f name ! unat pos)")
    case True
    then have lt: "pos < len" and px: "p (data_f name ! unat pos)" and oL: "length out < unat L"
      unfolding szL by simp_all
    define x where "x = data_f name ! unat pos"
    note c = remaining_Cons [OF lt len]
    have le: "unat (pos + 1) \<le> unat len"
      unfolding c(2) using lt unfolding word_less_nat_alt by simp
    have wr: "unat (size_f dst) < length (data_f dst)"
      unfolding sz ld using oL cap by linarith
    define dst' where "dst' = dst\<lparr>data_f := (data_f dst)[unat (size_f dst) := data_f name ! unat pos],
                                  size_f := size_f dst + 1\<rparr>"
    have step: "tidy_run p name len L dst pos = tidy_run p name len L dst' (pos + 1)"
      unfolding dst'_def by (subst tidy_run.simps) (simp only: True wr if_True simp_thms)
    have d': "dst' = filled C (out @ [x])"
      unfolding dst'_def sz x_def unfolding dst
      by (rule filled_write) (use oL cap in linarith)
    have o': "length (out @ [x]) \<le> unat L"
      using oL by simp
    define tw' where "tw' = takeWhile p (remaining name len (pos + 1))"
    have tw: "tw = x # tw'"
      unfolding tw_def tw'_def c(1) x_def using px by simp
    have ih: "tidy_run p name len L dst' (pos + 1) =
      Inr (filled C ((out @ [x]) @ take (unat L - length (out @ [x])) tw'),
           pos + 1 + of_nat (min (unat L - length (out @ [x])) (length tw')))"
      unfolding tw'_def
      by (rule "1.IH" [OF True wr, folded dst'_def, OF len cap le d' o'])
    have e1: "(out @ [x]) @ take (unat L - length (out @ [x])) tw' = out @ take (unat L - length out) tw"
    proof -
      have "unat L - length out = Suc (unat L - length (out @ [x]))"
        using oL by simp
      then show ?thesis
        unfolding tw by simp
    qed
    have e2: "pos + 1 + of_nat (min (unat L - length (out @ [x])) (length tw')) =
        pos + of_nat (min (unat L - length out) (length tw))"
    proof -
      have "min (unat L - length out) (length tw) = Suc (min (unat L - length (out @ [x])) (length tw'))"
        unfolding tw using oL by simp
      then show ?thesis
        by simp
    qed
    show "tidy_run p name len L dst pos =
      Inr (filled C (out @ take (unat L - length out) tw), pos + of_nat (min (unat L - length out) (length tw)))"
      unfolding step ih e1 e2 ..
  next
    case False
    have res: "tidy_run p name len L dst pos = Inr (dst, pos)"
      by (subst tidy_run.simps) (simp only: False if_False)
    have t0: "take (unat L - length out) tw = [] \<and> min (unat L - length out) (length tw) = 0"
    proof (cases "length out < unat L")
      case False
      then show ?thesis
        by simp
    next
      case oL: True
      have "tw = []"
      proof (cases "pos < len")
        case True
        with False oL have "\<not> p (data_f name ! unat pos)"
          unfolding szL by simp
        then show ?thesis
          unfolding tw_def remaining_Cons(1) [OF True len] by simp
      next
        case False
        then have "unat len \<le> unat pos"
          unfolding word_less_nat_alt by simp
        then have "remaining name len pos = []"
          unfolding remaining_def by simp
        then show ?thesis
          unfolding tw_def by simp
      qed
      then show ?thesis
        by simp
    qed
    show "tidy_run p name len L dst pos =
      Inr (filled C (out @ take (unat L - length out) tw), pos + of_nat (min (unat L - length out) (length tw)))"
      unfolding conjunct1 [OF t0] conjunct2 [OF t0] using res unfolding dst by simp
  qed
qed

section \<open>The copying pass on the remaining characters\<close>

lemma tidy_loop_step_match:
  assumes pos: "unat pos \<le> unat len" and len: "unat len \<le> length (data_f name)"
    and m: "match_first (remaining name len pos) \<noteq> 0"
  shows "tidy_loop name len L dst pos =
         tidy_loop name len L dst (pos + of_nat (match_first (remaining name len pos)))"
proof -
  define rest where "rest = remaining name len pos"
  have kw: "''enum'' \<in> set decoration_keywords" "''class'' \<in> set decoration_keywords"
    "''struct'' \<in> set decoration_keywords" "''__cdecl'' \<in> set decoration_keywords"
    unfolding decoration_keywords_def by simp_all
  note e = match_word [OF pos len kw(1), folded rest_def]
  note c = match_word [OF pos len kw(2), folded rest_def]
  note s = match_word [OF pos len kw(3), folded rest_def]
  note d = match_word [OF pos len kw(4), folded rest_def]
  have unfold: "tidy_loop name len L dst pos =
     (if match_at rest ''enum'' \<noteq> 0
      then tidy_loop name len L dst (pos + of_nat (match_at rest ''enum''))
      else if match_at rest ''class'' \<noteq> 0
      then tidy_loop name len L dst (pos + of_nat (match_at rest ''class''))
      else if match_at rest ''struct'' \<noteq> 0
      then tidy_loop name len L dst (pos + of_nat (match_at rest ''struct''))
      else if match_at rest ''__cdecl'' \<noteq> 0
      then tidy_loop name len L dst (pos + of_nat (match_at rest ''__cdecl''))
      else
        (case tidy_run iskey name len L dst pos of
           Inl e \<Rightarrow> Some (Inl e)
         | Inr (dst1, pos1) \<Rightarrow>
             (case tidy_run (\<lambda>c. \<not> iskey c) name len L dst1 pos1 of
                Inl e \<Rightarrow> Some (Inl e)
              | Inr (dst2, pos2) \<Rightarrow>
                  if size_f dst2 = L \<or> pos2 = len then Some (Inr (dst2, pos2))
                  else tidy_loop name len L dst2 pos2)))"
    by (subst tidy_loop.simps)
      (simp only: e(1) c(1) s(1) d(1) e(2) [unfolded e(1)] c(2) [unfolded c(1)] s(2) [unfolded s(1)]
         d(2) [unfolded d(1)])
  from m have "\<not> (match_at rest ''enum'' = 0 \<and> match_at rest ''class'' = 0 \<and>
    match_at rest ''struct'' = 0 \<and> match_at rest ''__cdecl'' = 0)"
    unfolding rest_def [symmetric] match_first_zero .
  then show ?thesis
    unfolding rest_def [symmetric] unfold match_first_def by auto
qed

lemma tidy_loop_step_run:
  assumes pos: "unat pos \<le> unat len" and len: "unat len \<le> length (data_f name)"
    and m: "match_first (remaining name len pos) = 0"
  shows "tidy_loop name len L dst pos =
        (case tidy_run iskey name len L dst pos of
           Inl e \<Rightarrow> Some (Inl e)
         | Inr (dst1, pos1) \<Rightarrow>
             (case tidy_run (\<lambda>c. \<not> iskey c) name len L dst1 pos1 of
                Inl e \<Rightarrow> Some (Inl e)
              | Inr (dst2, pos2) \<Rightarrow>
                  if size_f dst2 = L \<or> pos2 = len then Some (Inr (dst2, pos2))
                  else tidy_loop name len L dst2 pos2))"
proof -
  define rest where "rest = remaining name len pos"
  have kw: "''enum'' \<in> set decoration_keywords" "''class'' \<in> set decoration_keywords"
    "''struct'' \<in> set decoration_keywords" "''__cdecl'' \<in> set decoration_keywords"
    unfolding decoration_keywords_def by simp_all
  note e = match_word(2) [OF pos len kw(1), folded rest_def]
  note c = match_word(2) [OF pos len kw(2), folded rest_def]
  note s = match_word(2) [OF pos len kw(3), folded rest_def]
  note d = match_word(2) [OF pos len kw(4), folded rest_def]
  from m have z: "match_at rest ''enum'' = 0" "match_at rest ''class'' = 0"
    "match_at rest ''struct'' = 0" "match_at rest ''__cdecl'' = 0"
    unfolding rest_def [symmetric] match_first_zero by simp_all
  show ?thesis
    by (subst tidy_loop.simps) (simp only: e c s d z simp_thms if_False)
qed

lemma size_filled_eq:
  assumes "length out \<le> unat L"
  shows "(size_f (filled C out) = L) = (length out = unat L)"
proof -
  have "length out < 2 ^ 64"
    using assms unsigned_less [of L, where 'a = nat] by simp
  then have "unat (of_nat (length out) :: size_t) = length out"
    by (rule unat_of_nat_len64)
  then show ?thesis
    unfolding filled_fields word_unat_eq_iff by simp
qed

lemma tidy_loop_refines:
  assumes len: "unat len \<le> length (data_f name)" and cap: "unat L < unat C"
  shows "unat pos \<le> unat len \<Longrightarrow> rest = remaining name len pos \<Longrightarrow>
         length out \<le> unat L \<Longrightarrow> unat L \<le> length out + length (kept rest) \<Longrightarrow>
         \<exists>pos'. tidy_loop name len L (filled C out) pos =
                  Some (Inr (filled C (out @ take (unat L - length out) (kept rest)), pos'))"
proof (induction rest arbitrary: pos out rule: kept.induct)
  case (1 rest)
  note pos = "1.prems"(1) and rest = "1.prems"(2) and out = "1.prems"(3) and enough = "1.prems"(4)
  show ?case
  proof (cases "match_first rest \<noteq> 0")
    case True
    define n where "n = match_first rest"
    have "n \<le> length rest"
      unfolding n_def by (rule match_first_le)
    then have fit: "unat pos + n \<le> unat len"
      unfolding rest remaining_length [OF pos len] using pos by linarith
    note adv = remaining_advance(1) [OF fit] remaining_advance(2) [OF fit, of name]
    have p': "unat (pos + of_nat n) \<le> unat len"
      unfolding adv(1) by (rule fit)
    have r': "drop n rest = remaining name len (pos + of_nat n)"
      unfolding adv(2) rest ..
    have step: "tidy_loop name len L (filled C out) pos = tidy_loop name len L (filled C out) (pos + of_nat n)"
      using tidy_loop_step_match [OF pos len True [unfolded rest]] unfolding n_def rest .
    have k: "kept rest = kept (drop n rest)"
      unfolding n_def by (subst kept.simps) (simp only: True if_True simp_thms)
    show ?thesis
      unfolding step k
      by (rule "1.IH"(1) [OF True, folded n_def, OF p' r' out enough [unfolded k]])
  next
    case False
    then have m0: "match_first (remaining name len pos) = 0"
      unfolding rest by simp
    define a where "a = takeWhile iskey rest"
    define r1 where "r1 = dropWhile iskey rest"
    define b where "b = takeWhile (\<lambda>c. \<not> iskey c) r1"
    define r2 where "r2 = dropWhile (\<lambda>c. \<not> iskey c) r1"
    define room where "room = unat L - length out"
    have la: "length a + length r1 = length rest"
      unfolding a_def r1_def by (metis length_append takeWhile_dropWhile_id)
    have lb: "length b + length r2 = length r1"
      unfolding b_def r2_def by (metis length_append takeWhile_dropWhile_id)
    have r1d: "r1 = drop (length a) rest"
      unfolding a_def r1_def by (rule dropWhile_eq_drop)
    have r2d: "r2 = drop (length b) r1"
      unfolding b_def r2_def by (rule dropWhile_eq_drop)
    have lrest: "length rest = unat len - unat pos"
      unfolding rest by (rule remaining_length [OF pos len])
    have k: "kept rest = a @ b @ (if r2 = [] then [] else kept r2)"
      unfolding a_def b_def r2_def r1_def by (subst kept.simps) (simp only: False if_False simp_thms)
    define out1 where "out1 = out @ take room a"
    define pos1 where "pos1 = pos + of_nat (min room (length a))"
    have run1: "tidy_run iskey name len L (filled C out) pos = Inr (filled C out1, pos1)"
      unfolding out1_def pos1_def room_def a_def rest
      by (rule tidy_run_filled [OF len cap pos refl out])
    have fit1: "unat pos + min room (length a) \<le> unat len"
      using la lrest pos by linarith
    have up1: "unat pos1 = unat pos + min room (length a)"
      unfolding pos1_def by (rule remaining_advance(1) [OF fit1])
    have p1: "unat pos1 \<le> unat len"
      unfolding up1 by (rule fit1)
    have o1: "length out1 \<le> unat L"
      unfolding out1_def room_def using out by simp
    define tw where "tw = takeWhile (\<lambda>c. \<not> iskey c) (remaining name len pos1)"
    define out2 where "out2 = out1 @ take (unat L - length out1) tw"
    define pos2 where "pos2 = pos1 + of_nat (min (unat L - length out1) (length tw))"
    have run2: "tidy_run (\<lambda>c. \<not> iskey c) name len L (filled C out1) pos1 = Inr (filled C out2, pos2)"
      unfolding out2_def pos2_def tw_def
      by (rule tidy_run_filled [OF len cap p1 refl o1])
    have o2: "length out2 \<le> unat L"
      unfolding out2_def using o1 by simp
    have unfold: "tidy_loop name len L (filled C out) pos =
        (if length out2 = unat L \<or> pos2 = len then Some (Inr (filled C out2, pos2))
         else tidy_loop name len L (filled C out2) pos2)"
      unfolding tidy_loop_step_run [OF pos len m0] run1 run2 sum.case prod.case size_filled_eq [OF o2] ..
    show ?thesis
    proof (cases "room \<le> length a")
      case True
      then have "length out1 = unat L"
        unfolding out1_def room_def using out by simp
      then have e2: "out2 = out1" and full: "length out2 = unat L"
        unfolding out2_def by simp_all
      have "take room (kept rest) = take room a"
        unfolding k using True by simp
      then have "out @ take (unat L - length out) (kept rest) = out2"
        unfolding e2 out1_def room_def by simp
      with full show ?thesis
        unfolding unfold by simp
    next
      case aless: False
      then have ma: "min room (length a) = length a" and ta: "take room a = a"
        by simp_all
      have fit1': "unat pos + length a \<le> unat len"
        using fit1 unfolding ma .
      have rem1: "remaining name len pos1 = r1"
        unfolding pos1_def ma remaining_advance(2) [OF fit1'] r1d rest ..
      have twb: "tw = b"
        unfolding tw_def rem1 b_def ..
      have lo1: "length out1 = length out + length a"
        unfolding out1_def ta by simp
      define room1 where "room1 = unat L - length out1"
      have room1: "room1 = room - length a"
        unfolding room1_def room_def lo1 by simp
      show ?thesis
      proof (cases "room1 \<le> length b")
        case True
        then have full: "length out2 = unat L"
          unfolding out2_def twb room1_def using o1 by simp
        have "take room (kept rest) = a @ take room1 b"
          unfolding k room1 using aless True unfolding room1 by simp
        moreover have "out2 = out @ a @ take room1 b"
          unfolding out2_def twb room1_def [symmetric] unfolding out1_def ta by simp
        ultimately have "out @ take (unat L - length out) (kept rest) = out2"
          unfolding room_def [symmetric] by simp
        with full show ?thesis
          unfolding unfold by simp
      next
        case bless: False
        then have mb: "min room1 (length b) = length b" and tb: "take room1 b = b"
          by simp_all
        have o2e: "out2 = out @ a @ b"
          unfolding out2_def twb room1_def [symmetric] tb unfolding out1_def ta by simp
        have notfull: "length out2 \<noteq> unat L"
          unfolding o2e using bless aless unfolding room1 room_def by simp
        have fit2: "unat pos1 + length b \<le> unat len"
          unfolding up1 ma using la lb lrest pos by linarith
        have rem2: "remaining name len pos2 = r2"
          unfolding pos2_def twb room1_def [symmetric] mb remaining_advance(2) [OF fit2] rem1 r2d ..
        have p2: "unat pos2 \<le> unat len"
          unfolding pos2_def twb room1_def [symmetric] mb remaining_advance(1) [OF fit2] by (rule fit2)
        have atend: "(pos2 = len) = (r2 = [])"
          unfolding rem2 [symmetric] by (rule remaining_at_end [OF p2 len, symmetric])
        have ne: "r2 \<noteq> []"
        proof
          assume "r2 = []"
          then have "length (kept rest) = length a + length b"
            unfolding k by simp
          with enough bless aless show False
            unfolding room1 room_def by linarith
        qed
        have enough2: "unat L \<le> length out2 + length (kept r2)"
          using enough ne unfolding k o2e by simp
        have "\<exists>pos'. tidy_loop name len L (filled C out2) pos2 =
            Some (Inr (filled C (out2 @ take (unat L - length out2) (kept r2)), pos'))"
          using False ne [unfolded r2_def r1_def] p2 rem2 [symmetric, unfolded r2_def r1_def] o2
            enough2 [unfolded r2_def r1_def]
          unfolding r2_def r1_def by (rule "1.IH"(2))
        moreover have "out2 @ take (unat L - length out2) (kept r2) =
            out @ take (unat L - length out) (kept rest)"
        proof -
          have "length a \<le> room" and "length b \<le> room - length a"
            using aless bless unfolding room1 by simp_all
          then have "take room (a @ b @ kept r2) = a @ b @ take (room - length a - length b) (kept r2)"
            by simp
          moreover have "unat L - length out2 = room - length a - length b"
            unfolding o2e room_def by simp
          ultimately show ?thesis
            unfolding k o2e room_def [symmetric] using ne by simp
        qed
        ultimately show ?thesis
          unfolding unfold atend using notfull ne by simp
      qed
    qed
  qed
qed

section \<open>Facts about the kept characters\<close>

lemma trailing_spaces_append:
  "trailing_spaces (u @ v) =
     (if \<forall>c\<in>set v. c = CHR '' '' then length v + trailing_spaces u else trailing_spaces v)"
  unfolding trailing_spaces_def by (simp add: takeWhile_append)

lemma trailing_spaces_le: "trailing_spaces s \<le> length s"
  unfolding trailing_spaces_def using length_takeWhile_le [of "\<lambda>c. c = CHR '' ''" "rev s"] by simp

lemma trailing_spaces_append_le: "trailing_spaces (u @ v) \<le> length v + trailing_spaces u"
proof (cases "\<forall>c\<in>set v. c = CHR '' ''")
  case True
  then show ?thesis
    unfolding trailing_spaces_append by simp
next
  case False
  have "trailing_spaces (u @ v) = trailing_spaces v"
    unfolding trailing_spaces_append by (simp only: False if_False)
  with trailing_spaces_le [of v] show ?thesis
    by linarith
qed

lemma iskey_space: "\<not> iskey CHR '' ''"
  by (simp add: iskey_def)

lemma trailing_spaces_key:
  assumes "\<forall>c\<in>set a. iskey c"
  shows "trailing_spaces a = 0"
proof (cases "rev a")
  case Nil
  then show ?thesis
    unfolding trailing_spaces_def by simp
next
  case (Cons c cs)
  then have "c \<in> set a"
    by (metis list.set_intros(1) set_rev)
  with assms have "c \<noteq> CHR '' ''"
    using iskey_space by blast
  with Cons show ?thesis
    unfolding trailing_spaces_def by simp
qed

lemma match_at_nonkey_head:
  assumes "r = [] \<or> \<not> iskey (hd r)" and "w \<in> set decoration_keywords"
  shows "match_at r w = 0"
proof -
  have w: "w \<noteq> []" "iskey (hd w)"
    using assms(2) unfolding decoration_keywords_def by (auto simp: iskey_def)
  have "take (length w) r \<noteq> w"
  proof
    assume t: "take (length w) r = w"
    with w(1) have "r \<noteq> []"
      by auto
    then have "hd (take (length w) r) = hd r"
      using w(1) by (cases r; cases w) simp_all
    with t w(2) assms(1) \<open>r \<noteq> []\<close> show False
      by simp
  qed
  then show ?thesis
    unfolding match_at_def by simp
qed

lemma match_first_nonkey_head:
  assumes "r = [] \<or> \<not> iskey (hd r)"
  shows "match_first r = 0"
  unfolding match_first_zero
  using match_at_nonkey_head [OF assms] unfolding decoration_keywords_def by simp

lemma kept_nonkey:
  assumes "\<forall>c\<in>set r. \<not> iskey c"
  shows "kept r = r"
proof -
  have "r = [] \<or> \<not> iskey (hd r)"
    using assms by (cases r) simp_all
  then have m: "match_first r = 0"
    by (rule match_first_nonkey_head)
  have a: "takeWhile iskey r = []" and d: "dropWhile iskey r = r"
    using assms by (cases r; simp)+
  have b: "takeWhile (\<lambda>c. \<not> iskey c) r = r" and e: "dropWhile (\<lambda>c. \<not> iskey c) r = []"
    using assms by simp_all
  show ?thesis
    by (subst kept.simps) (simp only: m a d b e simp_thms if_True if_False append_Nil append_Nil2)
qed

lemma kept_length_le: "length (kept s) \<le> length s"
proof (induction s rule: kept.induct)
  case (1 rest)
  show ?case
  proof (cases "match_first rest \<noteq> 0")
    case True
    have k: "kept rest = kept (drop (match_first rest) rest)"
      by (subst kept.simps) (simp only: True if_True simp_thms)
    have "length (kept (drop (match_first rest) rest)) \<le> length (drop (match_first rest) rest)"
      by (rule "1.IH"(1) [OF True])
    then show ?thesis
      unfolding k by simp
  next
    case False
    define r1 where "r1 = dropWhile iskey rest"
    define r2 where "r2 = dropWhile (\<lambda>c. \<not> iskey c) r1"
    have k: "kept rest = takeWhile iskey rest @ takeWhile (\<lambda>c. \<not> iskey c) r1 @
        (if r2 = [] then [] else kept r2)"
      unfolding r2_def r1_def by (subst kept.simps) (simp only: False if_False simp_thms)
    have l: "length rest = length (takeWhile iskey rest) + (length (takeWhile (\<lambda>c. \<not> iskey c) r1) + length r2)"
      unfolding r2_def r1_def by (metis length_append takeWhile_dropWhile_id)
    show ?thesis
    proof (cases "r2 = []")
      case True
      then show ?thesis
        unfolding k l by simp
    next
      case ne: False
      have "length (kept r2) \<le> length r2"
        unfolding r2_def r1_def using False ne [unfolded r2_def r1_def] by (rule "1.IH"(2))
      with ne show ?thesis
        unfolding k l by simp
    qed
  qed
qed

lemma match_first_shape:
  assumes "match_first rest \<noteq> 0"
  shows "trailing_spaces (take (match_first rest) rest) \<le> 1"
proof -
  from match_first_cases [of rest] assms obtain w
    where w: "w \<in> set decoration_keywords" and n: "match_first rest = match_at rest w"
      and nz: "match_at rest w \<noteq> 0"
    by auto
  have wk: "\<forall>c\<in>set w. iskey c"
    using w unfolding decoration_keywords_def by (auto simp: iskey_def)
  from nz have t: "take (length w) rest = w"
    unfolding match_at_def by (simp split: if_splits)
  show ?thesis
  proof (cases "match_at rest w = length w")
    case True
    show ?thesis
      unfolding n True t trailing_spaces_key [OF wk] by simp
  next
    case False
    have m: "match_at rest w = length w + 1"
    proof (cases "drop (length w) rest")
      case Nil
      with t False show ?thesis
        unfolding match_at_def by simp
    next
      case (Cons c cs)
      have "match_at rest w =
          (if iskey c then 0 else if c = CHR '' '' then length w + 1 else length w)"
        unfolding match_at_def Cons using t by simp
      with nz False show ?thesis
        by (simp split: if_splits)
    qed
    have "take (length w + 1) rest = take (length w) rest @ take 1 (drop (length w) rest)"
      by (rule take_add)
    then have e: "take (length w + 1) rest = w @ take 1 (drop (length w) rest)"
      unfolding t .
    have "trailing_spaces (w @ take 1 (drop (length w) rest)) \<le>
        length (take 1 (drop (length w) rest)) + trailing_spaces w"
      by (rule trailing_spaces_append_le)
    also have "\<dots> \<le> 1"
      unfolding trailing_spaces_key [OF wk] by simp
    finally show ?thesis
      unfolding n m e .
  qed
qed

section \<open>The kept characters and the trailing spaces\<close>

lemma kept_trailing:
  "trailing_spaces s \<le> length (kept s) + 1 \<and>
   (\<forall>c\<in>set (drop (length (kept s) - trailing_spaces s) (kept s)). \<not> iskey c)"
proof (induction s rule: kept.induct)
  case (1 rest)
  show ?case
  proof (cases "match_first rest \<noteq> 0")
    case True
    define n where "n = match_first rest"
    define u where "u = take n rest"
    define v where "v = drop n rest"
    have k: "kept rest = kept v"
      unfolding v_def n_def by (subst kept.simps) (simp only: True if_True simp_thms)
    have rest: "rest = u @ v"
      unfolding u_def v_def by simp
    have tu: "trailing_spaces u \<le> 1"
      unfolding u_def n_def using True by (rule match_first_shape)
    show ?thesis
    proof (cases "\<forall>c\<in>set v. c = CHR '' ''")
      case sp: True
      have nk: "\<forall>c\<in>set v. \<not> iskey c"
      proof
        fix c assume "c \<in> set v"
        with sp have "c = CHR '' ''"
          by (rule bspec)
        then show "\<not> iskey c"
          using iskey_space by simp
      qed
      have kv: "kept v = v"
        using nk by (rule kept_nonkey)
      have "trailing_spaces rest = length v + trailing_spaces u"
        unfolding rest trailing_spaces_append using sp by simp
      with tu have "trailing_spaces rest \<le> length (kept rest) + 1"
        unfolding k kv by linarith
      moreover have "\<forall>c\<in>set (drop (length (kept rest) - trailing_spaces rest) (kept rest)). \<not> iskey c"
        unfolding k kv using nk by (meson in_set_dropD)
      ultimately show ?thesis
        by simp
    next
      case False
      have "trailing_spaces rest = trailing_spaces v"
        unfolding rest trailing_spaces_append by (simp only: False if_False)
      then show ?thesis
        unfolding k using "1.IH"(1) [OF True, folded n_def, folded v_def] by simp
    qed
  next
    case False
    define a where "a = takeWhile iskey rest"
    define r1 where "r1 = dropWhile iskey rest"
    define b where "b = takeWhile (\<lambda>c. \<not> iskey c) r1"
    define r2 where "r2 = dropWhile (\<lambda>c. \<not> iskey c) r1"
    have k: "kept rest = a @ b @ (if r2 = [] then [] else kept r2)"
      unfolding a_def b_def r2_def r1_def by (subst kept.simps) (simp only: False if_False simp_thms)
    have rest: "rest = (a @ b) @ r2"
      unfolding a_def b_def r2_def r1_def by simp
    have ak: "\<forall>c\<in>set a. iskey c"
    proof
      fix c assume "c \<in> set a"
      then show "iskey c"
        unfolding a_def by (rule set_takeWhileD [THEN conjunct2])
    qed
    have bk: "\<forall>c\<in>set b. \<not> iskey c"
    proof
      fix c assume "c \<in> set b"
      then show "\<not> iskey c"
        unfolding b_def by (rule set_takeWhileD [THEN conjunct2])
    qed
    show ?thesis
    proof (cases "r2 = []")
      case True
      have "trailing_spaces (a @ b) \<le> length b + trailing_spaces a"
        by (rule trailing_spaces_append_le)
      then have t: "trailing_spaces rest \<le> length b"
        unfolding rest True trailing_spaces_key [OF ak] by simp
      have ke: "kept rest = a @ b"
        unfolding k using True by simp
      have "drop (length (a @ b) - trailing_spaces rest) (a @ b) = drop (length b - trailing_spaces rest) b"
        using t by simp
      then have "\<forall>c\<in>set (drop (length (kept rest) - trailing_spaces rest) (kept rest)). \<not> iskey c"
        unfolding ke using bk by (metis in_set_dropD)
      moreover have "trailing_spaces rest \<le> length (kept rest) + 1"
        unfolding ke using t by simp
      ultimately show ?thesis
        by simp
    next
      case ne: False
      have ke: "kept rest = a @ b @ kept r2"
        unfolding k using ne by simp
      have hk: "iskey (hd r2)"
        using ne hd_dropWhile [of "\<lambda>c. \<not> iskey c" r1] unfolding r2_def by simp
      have "\<not> (\<forall>c\<in>set r2. c = CHR '' '')"
      proof
        assume "\<forall>c\<in>set r2. c = CHR '' ''"
        with ne have "hd r2 = CHR '' ''"
          by (cases r2) simp_all
        with hk iskey_space show False
          by simp
      qed
      then have ts: "trailing_spaces rest = trailing_spaces r2"
        unfolding rest trailing_spaces_append by (simp only: if_False)
      have "r1 \<noteq> []"
        using ne unfolding r2_def by auto
      then have "\<not> iskey (hd r1)"
        using hd_dropWhile [of iskey rest] unfolding r1_def by simp
      with \<open>r1 \<noteq> []\<close> have bne: "b \<noteq> []"
        unfolding b_def by (cases r1) simp_all
      note ih = "1.IH"(2) [OF False ne [unfolded r2_def r1_def], folded r1_def, folded r2_def]
      from ih have t2: "trailing_spaces r2 \<le> length (kept r2) + 1"
        and nk2: "\<forall>c\<in>set (drop (length (kept r2) - trailing_spaces r2) (kept r2)). \<not> iskey c"
        by simp_all
      have t: "trailing_spaces rest \<le> length (kept rest) + 1"
        unfolding ts ke using t2 by simp
      have ge: "length a \<le> length (kept rest) - trailing_spaces rest"
        unfolding ts ke using t2 bne by (cases b) simp_all
      have d: "drop (length (kept rest) - trailing_spaces rest) (kept rest) =
          drop (length (kept rest) - trailing_spaces rest - length a) b @
          drop (length (kept r2) - trailing_spaces r2) (kept r2)"
      proof -
        have "length (kept rest) - trailing_spaces rest - length a - length b =
            length (kept r2) - trailing_spaces r2"
          unfolding ts ke by simp
        then show ?thesis
          unfolding ke using ge unfolding ke by simp
      qed
      have "\<forall>c\<in>set (drop (length (kept rest) - trailing_spaces rest) (kept rest)). \<not> iskey c"
        unfolding d using nk2 bk by (auto dest: in_set_dropD)
      with t show ?thesis
        by simp
    qed
  qed
qed

section \<open>The copying pass as a whole\<close>

lemma tidy_run_no_room:
  assumes "data_f dst = []"
  shows "tidy_run p name len L dst pos =
    (if size_f dst < L \<and> pos < len \<and> p (data_f name ! unat pos) then Inl Out_Of_Bounds
     else Inr (dst, pos))"
  by (subst tidy_run.simps) (simp add: assms)

lemma tidy_loop_no_room:
  assumes len: "unat len \<le> length (data_f name)" and empty: "data_f dst = []"
    and sz: "size_f dst = 0"
  shows "unat pos \<le> unat len \<Longrightarrow> rest = remaining name len pos \<Longrightarrow>
         tidy_loop name len L dst pos = Some (Inl Out_Of_Bounds) \<or>
         (\<exists>pos'. tidy_loop name len L dst pos = Some (Inr (dst, pos')))"
proof (induction rest arbitrary: pos rule: kept.induct)
  case (1 rest)
  note pos = "1.prems"(1) and rest = "1.prems"(2)
  show ?case
  proof (cases "match_first rest \<noteq> 0")
    case True
    define n where "n = match_first rest"
    have "n \<le> length rest"
      unfolding n_def by (rule match_first_le)
    then have fit: "unat pos + n \<le> unat len"
      unfolding rest remaining_length [OF pos len] using pos by linarith
    note adv = remaining_advance(1) [OF fit] remaining_advance(2) [OF fit, of name]
    have p': "unat (pos + of_nat n) \<le> unat len"
      unfolding adv(1) by (rule fit)
    have r': "drop n rest = remaining name len (pos + of_nat n)"
      unfolding adv(2) rest ..
    have step: "tidy_loop name len L dst pos = tidy_loop name len L dst (pos + of_nat n)"
      using tidy_loop_step_match [OF pos len True [unfolded rest]] unfolding n_def rest .
    show ?thesis
      unfolding step by (rule "1.IH"(1) [OF True, folded n_def, OF p' r'])
  next
    case False
    then have m0: "match_first (remaining name len pos) = 0"
      unfolding rest by simp
    note unfold = tidy_loop_step_run [OF pos len m0, of L dst]
    show ?thesis
    proof (cases "size_f dst < L \<and> pos < len")
      case True
      show ?thesis
      proof (cases "iskey (data_f name ! unat pos)")
        case key: True
        have "tidy_run iskey name len L dst pos = Inl Out_Of_Bounds"
          unfolding tidy_run_no_room [OF empty] using True key by simp
        then show ?thesis
          unfolding unfold by simp
      next
        case nokey: False
        have "tidy_run iskey name len L dst pos = Inr (dst, pos)"
          unfolding tidy_run_no_room [OF empty] using nokey by simp
        moreover have "tidy_run (\<lambda>c. \<not> iskey c) name len L dst pos = Inl Out_Of_Bounds"
          unfolding tidy_run_no_room [OF empty] using True nokey by simp
        ultimately show ?thesis
          unfolding unfold by simp
      qed
    next
      case stop: False
      have r1: "tidy_run iskey name len L dst pos = Inr (dst, pos)"
        unfolding tidy_run_no_room [OF empty] using stop by auto
      have r2: "tidy_run (\<lambda>c. \<not> iskey c) name len L dst pos = Inr (dst, pos)"
        unfolding tidy_run_no_room [OF empty] using stop by auto
      have "size_f dst = L \<or> pos = len"
      proof (cases "pos < len")
        case True
        with stop have "\<not> 0 < L"
          unfolding sz by simp
        then have "L = 0"
          using word_neq_0_conv [of L] by blast
        then show ?thesis
          unfolding sz by simp
      next
        case False
        then have "unat len \<le> unat pos"
          unfolding word_less_nat_alt by simp
        with pos have "unat pos = unat len"
          by linarith
        then show ?thesis
          unfolding word_unat_eq_iff by simp
      qed
      then show ?thesis
        unfolding unfold by (simp add: r1 r2)
    qed
  qed
qed

lemma filled_exact:
  assumes "unat (L + 1) = unat L + 1" and "length out = unat L"
  shows "filled (L + 1) out = fixed_string_of out"
  unfolding filled_def fixed_string_of_def assms by simp

lemma tidy_msvc_fixed_string_of:
  assumes fits: "length s + 1 < 2 ^ 64"
  shows "tidy_msvc (fixed_string_of s) =
    (if trailing_spaces s \<le> length (kept s)
     then Some (Inr (fixed_string_of (take (length (kept s) - trailing_spaces s) (kept s))))
     else Some (Inl Out_Of_Bounds))"
proof -
  define K where "K = length (kept s)"
  define t where "t = trailing_spaces s"
  define L :: size_t where "L = of_nat K - of_nat t"
  note f = fixed_string_of_len [OF fits]
  have dry: "dry_msvc (fixed_string_of s) = Some L"
    unfolding L_def K_def t_def by (rule dry_msvc_fixed_string_of [OF fits])
  have Ks: "K \<le> length s"
    unfolding K_def by (rule kept_length_le)
  have unfold: "tidy_msvc (fixed_string_of s) =
      (case tidy_loop (fixed_string_of s) (of_nat (length s)) L (fixed_string_empty (L + 1)) 0 of
         None \<Rightarrow> None
       | Some (Inl e) \<Rightarrow> Some (Inl e)
       | Some (Inr (dst, pos)) \<Rightarrow>
           if unat L < length (data_f dst)
           then Some (Inr (dst\<lparr>data_f := (data_f dst)[unat L := CHR 0x00]\<rparr>))
           else Some (Inl Out_Of_Bounds))"
    unfolding tidy_msvc_def Let_def f(1) dry by simp
  have z: "unat (0 :: size_t) \<le> unat (of_nat (length s) :: size_t)"
    by simp
  show ?thesis
  proof (cases "t \<le> K")
    case True
    have "K - t < 2 ^ 64"
      using Ks fits by linarith
    then have "unat (of_nat (K - t) :: size_t) = K - t"
      by (rule unat_of_nat_len64)
    moreover have "L = of_nat (K - t)"
      unfolding L_def using True by simp
    ultimately have uL: "unat L = K - t"
      by simp
    have "unat L + 1 < 2 ^ 64"
      unfolding uL using Ks fits by linarith
    then have uC: "unat (L + 1) = unat L + 1"
      by (rule unat_plus_1)
    have cap: "unat L < unat (L + 1)"
      unfolding uC by simp
    have e: "fixed_string_empty (L + 1) = filled (L + 1) []"
      unfolding fixed_string_empty_def filled_def by simp
    define out where "out = take (K - t) (kept s)"
    have lo: "length out = unat L"
      unfolding out_def uL K_def by simp
    have "\<exists>pos'. tidy_loop (fixed_string_of s) (of_nat (length s)) L (filled (L + 1) []) 0 =
        Some (Inr (filled (L + 1) ([] @ take (unat L - length ([] :: string)) (kept s)), pos'))"
      using f(3) cap z f(5) [symmetric]
      by (rule tidy_loop_refines) (simp_all add: uL K_def)
    then obtain pos' where loop:
      "tidy_loop (fixed_string_of s) (of_nat (length s)) L (fixed_string_empty (L + 1)) 0 =
        Some (Inr (fixed_string_of out, pos'))"
      unfolding e out_def uL using filled_exact [OF uC lo] unfolding out_def by auto
    have w: "unat L < length (data_f (fixed_string_of out))"
      unfolding fixed_string_of_def lo [symmetric] by simp
    have w2: "(fixed_string_of out)\<lparr>data_f := (data_f (fixed_string_of out))[unat L := CHR 0x00]\<rparr> =
        fixed_string_of out"
      unfolding fixed_string_of_def lo [symmetric] by simp
    have "tidy_msvc (fixed_string_of s) = Some (Inr (fixed_string_of out))"
      unfolding unfold loop using w w2 by simp
    with True show ?thesis
      unfolding out_def K_def t_def by simp
  next
    case False
    have "t \<le> K + 1"
      unfolding t_def K_def using kept_trailing [of s] by simp
    with False have t: "t = K + 1"
      by linarith
    have L: "L = - 1"
      unfolding L_def t by simp
    have e: "data_f (fixed_string_empty (L + 1)) = []" "size_f (fixed_string_empty (L + 1)) = 0"
      unfolding L fixed_string_empty_def by simp_all
    have nw: "\<not> unat L < length (data_f (fixed_string_empty (L + 1)))"
      unfolding e by simp
    from tidy_loop_no_room [OF f(3) e z f(5) [symmetric], of L]
    have "tidy_msvc (fixed_string_of s) = Some (Inl Out_Of_Bounds)"
      unfolding unfold using nw by auto
    with False show ?thesis
      unfolding K_def t_def by simp
  qed
qed

section \<open>The counting pass and the copying pass agree\<close>

lemma size_fixed_string_of: "size_f (fixed_string_of y) = of_nat (length y)"
  unfolding fixed_string_of_def by simp

text \<open>
  C10. With the stripping compiler, for every raw name that fits into \<^verbatim>\<open>std::size_t\<close>: either
  \<open>tidy\<close> produces a string and \<open>dry\<close> returns the logical length of that string, or the count
  of \<open>dry\<close> has wrapped around to \<open>- 1\<close> and \<open>tidy\<close>, whose destination then has capacity 0, ends
  in a build error. Both passes end in either case.
\<close>

theorem dry_is_length_of_tidy:
  assumes "length s + 1 < 2 ^ 64"
  shows "(\<exists>y. tidy MSVC (fixed_string_of s) = Some (Inr y) \<and>
              dry MSVC (fixed_string_of s) = Some (Inr (size_f y))) \<or>
         (tidy MSVC (fixed_string_of s) = Some (Inl Out_Of_Bounds) \<and>
          dry MSVC (fixed_string_of s) = Some (Inr (- 1)))"
proof -
  define K where "K = length (kept s)"
  define t where "t = trailing_spaces s"
  have d: "dry MSVC (fixed_string_of s) = Some (Inr (of_nat K - of_nat t))"
    unfolding dry_def K_def t_def using dry_msvc_fixed_string_of [OF assms] by simp
  note ti = tidy_msvc_fixed_string_of [OF assms, folded K_def t_def]
  show ?thesis
  proof (cases "t \<le> K")
    case True
    have "tidy MSVC (fixed_string_of s) = Some (Inr (fixed_string_of (take (K - t) (kept s))))"
      unfolding tidy_def using ti True by simp
    moreover have "size_f (fixed_string_of (take (K - t) (kept s))) = of_nat K - of_nat t"
      unfolding size_fixed_string_of K_def using True [unfolded K_def] by simp
    ultimately show ?thesis
      unfolding d by simp
  next
    case False
    have "t \<le> K + 1"
      unfolding t_def K_def using kept_trailing [of s] by simp
    with False have "t = K + 1"
      by linarith
    then have "(of_nat K :: size_t) - of_nat t = - 1"
      by simp
    moreover have "tidy MSVC (fixed_string_of s) = Some (Inl Out_Of_Bounds)"
      unfolding tidy_def using ti False by simp
    ultimately show ?thesis
      unfolding d by simp
  qed
qed

theorem dry_is_length_of_tidy_witness:
  "tidy MSVC (fixed_string_of ''enum t::E'') = Some (Inr (fixed_string_of ''t::E'')) \<and>
   dry MSVC (fixed_string_of ''enum t::E'') = Some (Inr (size_f (fixed_string_of ''t::E'')))"
proof -
  have fits: "length ''enum t::E'' + 1 < 2 ^ 64"
    by simp
  have t: "tidy MSVC (fixed_string_of ''enum t::E'') = Some (Inr (fixed_string_of ''t::E''))"
    by code_simp
  from dry_is_length_of_tidy [OF fits] t
  have "dry MSVC (fixed_string_of ''enum t::E'') = Some (Inr (size_f (fixed_string_of ''t::E'')))"
    by auto
  with t show ?thesis
    by (rule conjI)
qed

section \<open>Keywords as whole words\<close>

lemma keyword_chars:
  assumes "w \<in> set decoration_keywords"
  shows "w \<noteq> []" and "\<forall>c\<in>set w. iskey c"
  using assms unfolding decoration_keywords_def by (auto simp: iskey_def)

lemma is_token_match:
  assumes "w \<in> set decoration_keywords"
  shows "is_token w r = (match_at r w \<noteq> 0)"
proof (cases "take (length w) r = w")
  case False
  then show ?thesis
    unfolding is_token_def match_at_def by simp
next
  case True
  have "0 < length w"
    using keyword_chars(1) [OF assms] by simp
  then show ?thesis
    unfolding is_token_def match_at_def using True by (simp split: list.splits)
qed

lemma no_token_nonkey_head:
  assumes "w \<in> set decoration_keywords" and "\<not> iskey c"
  shows "\<not> is_token w (c # z)"
  unfolding is_token_match [OF assms(1)] using match_at_nonkey_head [of "c # z" w] assms by simp

lemma keyword_from_nonkey_prefix:
  "\<forall>c\<in>set b. \<not> iskey c \<Longrightarrow> b \<noteq> [] \<Longrightarrow> keyword_from p (b @ z) = keyword_from False z"
proof (induction b arbitrary: p)
  case Nil
  then show ?case
    by simp
next
  case (Cons c b)
  have c: "\<not> iskey c"
    using Cons.prems(1) by simp
  have nt: "\<not> (\<exists>w\<in>set decoration_keywords. is_token w (c # b @ z))"
    using no_token_nonkey_head [OF _ c] by blast
  have one: "keyword_from p (c # b @ z) = keyword_from False (b @ z)"
    using nt c by simp
  show ?case
  proof (cases "b = []")
    case True
    then show ?thesis
      using one by simp
  next
    case False
    have "keyword_from False (b @ z) = keyword_from False z"
      using Cons.prems(1) False by (intro Cons.IH) simp_all
    then show ?thesis
      using one by simp
  qed
qed

lemma keyword_from_key_prefix:
  "\<forall>c\<in>set a. iskey c \<Longrightarrow> keyword_from True (a @ z) = keyword_from True z"
  by (induction a) simp_all


lemma is_token_whole_run:
  assumes a: "\<forall>c\<in>set a. iskey c" and w: "\<forall>c\<in>set w. iskey c"
    and z: "z = [] \<or> \<not> iskey (hd z)"
    and tok: "is_token w (a @ z)"
  shows "w = a"
proof -
  from tok have t: "take (length w) (a @ z) = w"
    and d: "drop (length w) (a @ z) = [] \<or> \<not> iskey (hd (drop (length w) (a @ z)))"
    unfolding is_token_def by (simp_all split: list.splits)
  have "\<not> length w < length a"
  proof
    assume l: "length w < length a"
    then have "drop (length w) (a @ z) = drop (length w) a @ z" and ne: "drop (length w) a \<noteq> []"
      by simp_all
    then have "hd (drop (length w) (a @ z)) = hd (drop (length w) a)"
      and "drop (length w) (a @ z) \<noteq> []"
      by simp_all
    moreover have "hd (drop (length w) a) \<in> set a"
      using ne by (meson hd_in_set in_set_dropD)
    ultimately show False
      using d a by simp
  qed
  moreover have "\<not> length a < length w"
  proof
    assume l: "length a < length w"
    then have e: "w = a @ take (length w - length a) z"
      using t by simp
    then have "length w = length a + length (take (length w - length a) z)"
      by (metis length_append)
    with l have ne: "take (length w - length a) z \<noteq> []"
      by auto
    then have zne: "z \<noteq> []"
      by auto
    then have "hd (take (length w - length a) z) = hd z"
      using ne by (cases z; cases "length w - length a") simp_all
    moreover have "hd (take (length w - length a) z) \<in> set w"
      using ne e by (metis Un_iff hd_in_set set_append)
    ultimately show False
      using w z zne by simp
  qed
  ultimately have "length w = length a"
    by linarith
  with t show ?thesis
    by simp
qed

section \<open>The kept characters hold no keyword\<close>

lemma no_match_no_token:
  assumes "match_first rest = 0" and "w \<in> set decoration_keywords"
  shows "\<not> is_token w rest"
proof -
  have "match_at rest w = 0"
    using assms unfolding match_first_zero decoration_keywords_def by auto
  then show ?thesis
    unfolding is_token_match [OF assms(2)] by simp
qed

lemma run_split:
  fixes rest :: string
  defines "a \<equiv> takeWhile iskey rest"
    and "r1 \<equiv> dropWhile iskey rest"
  defines "b \<equiv> takeWhile (\<lambda>c. \<not> iskey c) r1"
    and "r2 \<equiv> dropWhile (\<lambda>c. \<not> iskey c) r1"
  shows "rest = a @ b @ r2" and "\<forall>c\<in>set a. iskey c" and "\<forall>c\<in>set b. \<not> iskey c"
    and "r1 = [] \<or> \<not> iskey (hd r1)" and "r2 \<noteq> [] \<longrightarrow> b \<noteq> []" and "b = [] \<longrightarrow> r1 = []"
proof -
  show "rest = a @ b @ r2"
    unfolding a_def b_def r2_def r1_def by simp
  show "\<forall>c\<in>set a. iskey c"
  proof
    fix c assume "c \<in> set a"
    then show "iskey c"
      unfolding a_def by (rule set_takeWhileD [THEN conjunct2])
  qed
  show "\<forall>c\<in>set b. \<not> iskey c"
  proof
    fix c assume "c \<in> set b"
    then show "\<not> iskey c"
      unfolding b_def by (rule set_takeWhileD [THEN conjunct2])
  qed
  show h: "r1 = [] \<or> \<not> iskey (hd r1)"
    using hd_dropWhile [of iskey rest] unfolding r1_def by blast
  show e: "b = [] \<longrightarrow> r1 = []"
  proof
    assume "b = []"
    then have "r1 = [] \<or> iskey (hd r1)"
      unfolding b_def by (cases r1) (simp_all split: if_splits)
    with h show "r1 = []"
      by blast
  qed
  show "r2 \<noteq> [] \<longrightarrow> b \<noteq> []"
  proof (intro impI notI)
    assume "r2 \<noteq> []" and "b = []"
    with e have "r1 = []"
      by blast
    with \<open>r2 \<noteq> []\<close> show False
      unfolding r2_def by simp
  qed
qed

lemma kept_has_no_keyword: "\<not> keyword_from False (kept s)"
proof (induction s rule: kept.induct)
  case (1 rest)
  show ?case
  proof (cases "match_first rest \<noteq> 0")
    case True
    have k: "kept rest = kept (drop (match_first rest) rest)"
      by (subst kept.simps) (simp only: True if_True simp_thms)
    show ?thesis
      unfolding k by (rule "1.IH"(1) [OF True])
  next
    case False
    then have m0: "match_first rest = 0"
      by simp
    define a where "a = takeWhile iskey rest"
    define r1 where "r1 = dropWhile iskey rest"
    define b where "b = takeWhile (\<lambda>c. \<not> iskey c) r1"
    define r2 where "r2 = dropWhile (\<lambda>c. \<not> iskey c) r1"
    define k' where "k' = (if r2 = [] then [] else kept r2)"
    have k: "kept rest = a @ b @ k'"
      unfolding a_def b_def r2_def r1_def k'_def
      by (subst kept.simps) (simp only: False if_False simp_thms)
    note sp = run_split [of rest, folded a_def r1_def, folded b_def r2_def]
    have ra: "rest = a @ r1"
      unfolding a_def r1_def by simp
    have ck': "\<not> keyword_from False k'"
    proof (cases "r2 = []")
      case True
      then show ?thesis
        unfolding k'_def by simp
    next
      case ne: False
      have "\<not> keyword_from False (kept r2)"
        unfolding r2_def r1_def using False ne [unfolded r2_def r1_def] by (rule "1.IH"(2))
      with ne show ?thesis
        unfolding k'_def by simp
    qed
    have cz: "\<not> keyword_from p (b @ k')" for p
    proof (cases "b = []")
      case True
      with sp(5) have "r2 = []"
        by blast
      then show ?thesis
        unfolding k'_def True by simp
    next
      case False
      show ?thesis
        unfolding keyword_from_nonkey_prefix [OF sp(3) False] by (rule ck')
    qed
    show ?thesis
    proof (cases "a = []")
      case True
      show ?thesis
        unfolding k True using cz by simp
    next
      case ane: False
      then obtain c a' where a: "a = c # a'"
        by (cases a) auto
      have zd: "b @ k' = [] \<or> \<not> iskey (hd (b @ k'))"
      proof (cases "b = []")
        case True
        with sp(5) have "r2 = []"
          by blast
        then show ?thesis
          unfolding k'_def True by simp
      next
        case False
        then have "hd (b @ k') \<in> set b"
          by simp
        with sp(3) show ?thesis
          by blast
      qed
      have nt: "\<not> is_token w (a @ b @ k')" if w: "w \<in> set decoration_keywords" for w
      proof
        assume "is_token w (a @ b @ k')"
        then have "w = a"
          using sp(2) keyword_chars(2) [OF w] zd by (intro is_token_whole_run) simp_all
        then have "take (length w) rest = w" and "drop (length w) rest = r1"
          unfolding ra by simp_all
        then have "is_token w rest"
          unfolding is_token_def using sp(4) by (cases r1) simp_all
        with no_match_no_token [OF m0 w] show False
          by simp
      qed
      have "keyword_from False (a @ b @ k') =
          ((\<exists>w\<in>set decoration_keywords. is_token w (a @ b @ k')) \<or> keyword_from True (a' @ b @ k'))"
        unfolding a using sp(2) unfolding a by simp
      also have "keyword_from True (a' @ b @ k') = keyword_from True (b @ k')"
        using sp(2) unfolding a by (intro keyword_from_key_prefix) simp
      finally show ?thesis
        unfolding k using nt cz by blast
    qed
  qed
qed

section \<open>Truncation and whole-word occurrences\<close>

lemma is_token_iff:
  "is_token w r =
   (take (length w) r = w \<and> (drop (length w) r = [] \<or> \<not> iskey (hd (drop (length w) r))))"
  unfolding is_token_def by (cases "drop (length w) r") simp_all

lemma is_token_truncated:
  assumes tok: "is_token w (take m y)" and nk: "\<forall>c\<in>set (drop m y). \<not> iskey c"
  shows "is_token w y"
proof -
  from tok have t: "take (length w) (take m y) = w"
    and d: "drop (length w) (take m y) = [] \<or> \<not> iskey (hd (drop (length w) (take m y)))"
    unfolding is_token_iff by simp_all
  have "length (take (length w) (take m y)) = length w"
    unfolding t ..
  then have wm: "length w \<le> m" and wy: "length w \<le> length y"
    by simp_all
  then have t': "take (length w) y = w"
    using t by (simp add: min_absorb1)
  have dd: "drop (length w) (take m y) = take (m - length w) (drop (length w) y)"
    by (rule drop_take)
  have "drop (length w) y = [] \<or> \<not> iskey (hd (drop (length w) y))"
  proof (cases "m = length w")
    case True
    show ?thesis
    proof (cases "drop (length w) y")
      case Nil
      then show ?thesis
        by simp
    next
      case (Cons c cs)
      then have "c \<in> set (drop m y)"
        unfolding True by simp
      with nk Cons show ?thesis
        by simp
    qed
  next
    case False
    with wm have pos: "0 < m - length w"
      by linarith
    show ?thesis
    proof (cases "drop (length w) y")
      case Nil
      then show ?thesis
        by simp
    next
      case (Cons c cs)
      then have "take (m - length w) (drop (length w) y) = c # take (m - length w - 1) cs"
        using pos by (cases "m - length w") simp_all
      with d show ?thesis
        unfolding dd Cons by simp
    qed
  qed
  with t' show ?thesis
    unfolding is_token_iff by simp
qed

lemma keyword_from_truncated:
  "keyword_from p (take m k) \<Longrightarrow> \<forall>c\<in>set (drop m k). \<not> iskey c \<Longrightarrow> keyword_from p k"
proof (induction k arbitrary: m p)
  case Nil
  then show ?case
    by simp
next
  case (Cons c cs)
  show ?case
  proof (cases m)
    case 0
    with Cons.prems(1) show ?thesis
      by simp
  next
    case (Suc m')
    from Cons.prems(1) have
      "(\<not> p \<and> (\<exists>w\<in>set decoration_keywords. is_token w (take m (c # cs)))) \<or>
       keyword_from (iskey c) (take m' cs)"
      unfolding Suc by simp
    then show ?thesis
    proof
      assume "\<not> p \<and> (\<exists>w\<in>set decoration_keywords. is_token w (take m (c # cs)))"
      then obtain w where "\<not> p" "w \<in> set decoration_keywords" "is_token w (take m (c # cs))"
        by blast
      moreover from this(3) Cons.prems(2) have "is_token w (c # cs)"
        by (rule is_token_truncated)
      ultimately show ?thesis
        by auto
    next
      assume "keyword_from (iskey c) (take m' cs)"
      moreover have "\<forall>c\<in>set (drop m' cs). \<not> iskey c"
        using Cons.prems(2) unfolding Suc by simp
      ultimately have "keyword_from (iskey c) cs"
        by (rule Cons.IH)
      then show ?thesis
        by simp
    qed
  qed
qed

lemma whole_word_keyword_from:
  "w \<in> set decoration_keywords \<Longrightarrow> i + length w \<le> length y \<Longrightarrow>
   take (length w) (drop i y) = w \<Longrightarrow>
   i + length w = length y \<or> \<not> iskey (y ! (i + length w)) \<Longrightarrow>
   (if i = 0 then \<not> p else \<not> iskey (y ! (i - 1))) \<Longrightarrow> keyword_from p y"
proof (induction y arbitrary: i p)
  case Nil
  with keyword_chars(1) [OF Nil.prems(1)] show ?case
    by simp
next
  case (Cons c cs)
  show ?case
  proof (cases i)
    case 0
    have t: "take (length w) (c # cs) = w"
      using Cons.prems(3) unfolding 0 by simp
    have "drop (length w) (c # cs) = [] \<or> \<not> iskey (hd (drop (length w) (c # cs)))"
    proof (cases "length w = length (c # cs)")
      case True
      then show ?thesis
        by simp
    next
      case False
      with Cons.prems(2,4) have lt: "length w < length (c # cs)" and nk: "\<not> iskey ((c # cs) ! length w)"
        unfolding 0 by simp_all
      from lt have "hd (drop (length w) (c # cs)) = (c # cs) ! length w"
        by (rule hd_drop_conv_nth)
      with nk show ?thesis
        by simp
    qed
    with t have "is_token w (c # cs)"
      unfolding is_token_iff by simp
    moreover have "\<not> p"
      using Cons.prems(5) unfolding 0 by simp
    ultimately show ?thesis
      using Cons.prems(1) by auto
  next
    case (Suc j)
    have "keyword_from (iskey c) cs"
    proof (rule Cons.IH [OF Cons.prems(1), of j])
      show "j + length w \<le> length cs"
        using Cons.prems(2) unfolding Suc by simp
      show "take (length w) (drop j cs) = w"
        using Cons.prems(3) unfolding Suc by simp
      show "j + length w = length cs \<or> \<not> iskey (cs ! (j + length w))"
        using Cons.prems(4) unfolding Suc by simp
      show "if j = 0 then \<not> iskey c else \<not> iskey (cs ! (j - 1))"
        using Cons.prems(5) unfolding Suc by (cases j) simp_all
    qed
    then show ?thesis
      by simp
  qed
qed

lemma has_keyword_keyword_from:
  assumes "has_keyword y"
  shows "keyword_from False y"
proof -
  from assms obtain i w where w: "w \<in> set decoration_keywords" and ww: "whole_word_at y i w"
    unfolding has_keyword_def by blast
  from ww have a: "i + length w \<le> length y" and b: "take (length w) (drop i y) = w"
    and c: "i = 0 \<or> \<not> iskey (y ! (i - 1))"
    and d: "i + length w = length y \<or> \<not> iskey (y ! (i + length w))"
    unfolding whole_word_at_def by simp_all
  have e: "if i = 0 then \<not> False else \<not> iskey (y ! (i - 1))"
    using c by auto
  show ?thesis
    by (rule whole_word_keyword_from [OF w a b d e])
qed


section \<open>The tidy name: keywords and a second application\<close>

lemma tidy_msvc_result:
  assumes fits: "length s + 1 < 2 ^ 64" and res: "tidy_msvc (fixed_string_of s) = Some (Inr y)"
  shows "\<exists>z. y = fixed_string_of z \<and> \<not> keyword_from False z \<and> length z \<le> length s"
proof -
  define K where "K = length (kept s)"
  define t where "t = trailing_spaces s"
  define z where "z = take (K - t) (kept s)"
  note ti = tidy_msvc_fixed_string_of [OF fits, folded K_def t_def, folded z_def]
  from res have y: "y = fixed_string_of z"
    unfolding ti by (simp split: if_splits)
  have "\<forall>c\<in>set (drop (K - t) (kept s)). \<not> iskey c"
    unfolding K_def t_def using kept_trailing [of s] by simp
  with kept_has_no_keyword [of s] have "\<not> keyword_from False z"
    unfolding z_def using keyword_from_truncated by blast
  moreover have "length z \<le> length s"
    unfolding z_def using kept_length_le [of s] by simp
  ultimately show ?thesis
    using y by blast
qed

lemma tidy_msvc_outcome:
  assumes fits: "length s + 1 < 2 ^ 64"
  shows "(\<exists>y. tidy_msvc (fixed_string_of s) = Some (Inr y)) \<or>
         tidy_msvc (fixed_string_of s) = Some (Inl Out_Of_Bounds)"
  unfolding tidy_msvc_fixed_string_of [OF fits] by simp

text \<open>
  C2, as amended. With MSVC, whenever \<open>tidy\<close> produces a name, no decoration keyword occurs in
  it as a whole word (and the only other outcome is the build error of a destination of
  capacity 0). With Clang and GCC the name is the raw name, unchanged.
\<close>

theorem name_has_no_keyword:
  assumes "length s + 1 < 2 ^ 64"
  shows "((\<exists>y. tidy MSVC (fixed_string_of s) = Some (Inr y) \<and> \<not> has_keyword (view y)) \<or>
          tidy MSVC (fixed_string_of s) = Some (Inl Out_Of_Bounds)) \<and>
         tidy Clang (fixed_string_of s) = Some (Inr (fixed_string_of s)) \<and>
         tidy GCC (fixed_string_of s) = Some (Inr (fixed_string_of s))"
proof -
  have m: "tidy MSVC (fixed_string_of s) = tidy_msvc (fixed_string_of s)"
    unfolding tidy_def by simp
  have "(\<exists>y. tidy_msvc (fixed_string_of s) = Some (Inr y) \<and> \<not> has_keyword (view y)) \<or>
      tidy_msvc (fixed_string_of s) = Some (Inl Out_Of_Bounds)"
  proof (cases "tidy_msvc (fixed_string_of s) = Some (Inl Out_Of_Bounds)")
    case True
    then show ?thesis
      by simp
  next
    case False
    with tidy_msvc_outcome [OF assms] obtain y where y: "tidy_msvc (fixed_string_of s) = Some (Inr y)"
      by blast
    from tidy_msvc_result [OF assms y] obtain z
      where z: "y = fixed_string_of z" "\<not> keyword_from False z" "length z \<le> length s"
      by blast
    have "length z < 2 ^ 64"
      using z(3) assms by linarith
    then have "view y = z"
      unfolding z(1) by (rule view_fixed_string_of)
    with z(2) have "\<not> has_keyword (view y)"
      using has_keyword_keyword_from by blast
    with y show ?thesis
      by blast
  qed
  then show ?thesis
    unfolding m by (simp add: tidy_def)
qed

theorem name_has_no_keyword_witness:
  "tidy MSVC (fixed_string_of ''enum t::E'') = Some (Inr (fixed_string_of ''t::E'')) \<and>
   \<not> has_keyword (view (fixed_string_of ''t::E'')) \<and>
   tidy GCC (fixed_string_of ''enum t::E'') = Some (Inr (fixed_string_of ''enum t::E''))"
proof -
  have fits: "length ''enum t::E'' + 1 < 2 ^ 64"
    by simp
  have t: "tidy MSVC (fixed_string_of ''enum t::E'') = Some (Inr (fixed_string_of ''t::E''))"
    by code_simp
  note n = name_has_no_keyword [OF fits]
  from n t have "\<not> has_keyword (view (fixed_string_of ''t::E''))"
    by auto
  moreover from n have "tidy GCC (fixed_string_of ''enum t::E'') = Some (Inr (fixed_string_of ''enum t::E''))"
    by blast
  ultimately show ?thesis
    using t by blast
qed

text \<open>
  With GCC the name of an unnamed struct in the namespace \<open>t\<close> is its raw name, and the keyword
  stays in it as a whole word.
\<close>

theorem name_keeps_keyword_with_gcc:
  "tidy GCC (fixed_string_of ''t::<unnamed struct>'') = Some (Inr (fixed_string_of ''t::<unnamed struct>'')) \<and>
   has_keyword (view (fixed_string_of ''t::<unnamed struct>''))"
proof -
  have "whole_word_at ''t::<unnamed struct>'' 12 ''struct''"
    unfolding whole_word_at_def by (simp add: iskey_def)
  moreover have "''struct'' \<in> set decoration_keywords"
    unfolding decoration_keywords_def by simp
  moreover have "(12 :: nat) < length ''t::<unnamed struct>''"
    by simp
  ultimately have "has_keyword ''t::<unnamed struct>''"
    unfolding has_keyword_def by blast
  moreover have "view (fixed_string_of ''t::<unnamed struct>'') = ''t::<unnamed struct>''"
    by (rule view_fixed_string_of) simp
  moreover have "tidy GCC (fixed_string_of ''t::<unnamed struct>'') =
      Some (Inr (fixed_string_of ''t::<unnamed struct>''))"
    unfolding tidy_def by simp
  ultimately show ?thesis
    by simp
qed


section \<open>Names that do not end with a keyword\<close>







section \<open>Stripping twice\<close>



text \<open>
  The hypothesis on the end of the name is needed. \<^verbatim>\<open>a struct\<close> is not a name that a compiler
  prints; on it the loop at the end of \<open>dry\<close> finds no space at the end of the raw name, the
  space before the keyword stays, and a second application removes it.
\<close>

lemma tidy_after_last_keyword:
  "tidy MSVC (fixed_string_of ''a struct'') = Some (Inr (fixed_string_of ''a '')) \<and>
   tidy MSVC (fixed_string_of ''a '') = Some (Inr (fixed_string_of ''a'')) \<and>
   fixed_string_of ''a '' \<noteq> fixed_string_of ''a''"
proof -
  have a: "tidy MSVC (fixed_string_of ''a struct'') = Some (Inr (fixed_string_of ''a ''))"
    by code_simp
  have b: "tidy MSVC (fixed_string_of ''a '') = Some (Inr (fixed_string_of ''a''))"
    by code_simp
  have c: "fixed_string_of ''a '' \<noteq> fixed_string_of ''a''"
    unfolding fixed_string_of_def by simp
  from a b c show ?thesis
    by (intro conjI)
qed

section \<open>The unqualified type name: compound and plain types\<close>

text \<open>
  C7. For a type that is const- or volatile-qualified, or an array, pointer, reference,
  function or member-pointer type, \<open>base\<close> is \<open>name\<close>: the same outcome, the same string.
\<close>

theorem base_of_compound_is_name:
  assumes "is_const T \<or> is_volatile T \<or> is_array T \<or> is_pointer T \<or> is_reference T \<or>
           is_function T \<or> is_member_pointer T"
  shows "type_name_base c T full_int full_void func = type_name_name c full_int full_void func"
proof (cases "raw full_int full_void func")
  case (Inl e)
  then show ?thesis
    unfolding type_name_base_def type_name_name_def by simp
next
  case (Inr name)
  have "base c T name = tidy c name"
    unfolding base_def using assms by (simp only: if_True)
  with Inr show ?thesis
    unfolding type_name_base_def type_name_name_def by simp
qed

theorem base_of_compound_is_name_witness:
  "type_name_base GCC \<lparr>is_const = True, is_volatile = False, is_array = False, is_pointer = False,
       is_reference = False, is_function = False, is_member_pointer = False\<rparr>
     ''get() [with T = int]'' ''get() [with T = void]'' ''raw() [with T = const t::S]''
   = type_name_name GCC ''get() [with T = int]'' ''get() [with T = void]'' ''raw() [with T = const t::S]''"
proof -
  let ?T = "\<lparr>is_const = True, is_volatile = False, is_array = False, is_pointer = False,
       is_reference = False, is_function = False, is_member_pointer = False\<rparr>"
  have h: "is_const ?T \<or> is_volatile ?T \<or> is_array ?T \<or> is_pointer ?T \<or> is_reference ?T \<or>
           is_function ?T \<or> is_member_pointer ?T"
    by simp
  show ?thesis
    by (rule base_of_compound_is_name [OF h])
qed

lemma fixed_string_of_fields:
  "data_f (fixed_string_of y) = y @ [CHR 0x00]"
  "size_f (fixed_string_of y) = of_nat (length y)"
  "capacity_f (fixed_string_of y) = of_nat (length y) + 1"
  unfolding fixed_string_of_def by simp_all

lemma base_plain_fixed_string:
  assumes fits: "length y + 1 < 2 ^ 64"
  shows "\<exists>b. (let nm = fixed_string_of y; pos = rfind nm CHR '':'' in
              if pos = npos then Some (Inr nm)
              else let N = capacity_f nm - pos - 1 in
                if unat (pos + 1) \<le> length (data_f nm)
                then Some (fixed_string_ptr N (drop (unat (pos + 1)) (data_f nm)) N)
                else Some (Inl Out_Of_Bounds)) = Some (Inr (fixed_string_of b)) \<and>
             CHR '':'' \<notin> set b \<and>
             (if CHR '':'' \<in> set y then \<exists>p. y = p @ CHR '':'' # b else b = y)"
proof -
  define nm where "nm = fixed_string_of y"
  define pos where "pos = rfind nm CHR '':''"
  have ly: "length y < 2 ^ 64"
    using fits by linarith
  have uy: "unat (of_nat (length y) :: size_t) = length y"
    using ly by (rule unat_of_nat_len64)
  have v: "view nm = y"
    unfolding nm_def using ly by (rule view_fixed_string_of)
  have inv: "unat (size_f nm) < length (data_f nm)"
    unfolding nm_def fixed_string_of_fields uy by simp
  note rf = rfind_spec [OF inv, of "CHR '':''", unfolded v, folded pos_def]
  show ?thesis
  proof (cases "CHR '':'' \<in> set y")
    case False
    with rf have "pos = npos"
      by blast
    then have "(let nm = fixed_string_of y; pos = rfind nm CHR '':'' in
              if pos = npos then Some (Inr nm)
              else let N = capacity_f nm - pos - 1 in
                if unat (pos + 1) \<le> length (data_f nm)
                then Some (fixed_string_ptr N (drop (unat (pos + 1)) (data_f nm)) N)
                else Some (Inl Out_Of_Bounds)) = Some (Inr (fixed_string_of y))"
      unfolding Let_def nm_def [symmetric] pos_def [symmetric] by (simp only: simp_thms if_True nm_def)
    with False show ?thesis
      by auto
  next
    case True
    with rf have p: "unat pos < length y" and at: "y ! unat pos = CHR '':''"
      and after: "\<forall>j<length y. unat pos < j \<longrightarrow> y ! j \<noteq> CHR '':''"
      by blast+
    define b where "b = drop (Suc (unat pos)) y"
    have y: "y = take (unat pos) y @ CHR '':'' # b"
      unfolding b_def using p at by (metis id_take_nth_drop)
    have nb: "CHR '':'' \<notin> set b"
    proof
      assume "CHR '':'' \<in> set b"
      then obtain i where i: "i < length b" "b ! i = CHR '':''"
        unfolding in_set_conv_nth by blast
      then have "Suc (unat pos) + i < length y" and "y ! (Suc (unat pos) + i) = CHR '':''"
        unfolding b_def by simp_all
      with after show False
        by (metis add_Suc less_add_Suc1)
    qed
    have pn: "pos \<noteq> npos"
    proof
      assume "pos = npos"
      then have "unat pos = 2 ^ 64 - 1"
        unfolding npos_def by (simp add: unat_minus_1_len64)
      with p ly show False
        by linarith
    qed
    have p1: "unat (pos + 1) = Suc (unat pos)"
      using unat_plus_1 [of pos] p ly by simp
    define N where "N = capacity_f nm - pos - 1"
    have N: "N = of_nat (length y) - pos"
      unfolding N_def nm_def fixed_string_of_fields by simp
    have "unat pos \<le> unat (of_nat (length y) :: size_t)"
      unfolding uy using p by linarith
    then have "pos \<le> of_nat (length y)"
      unfolding word_le_nat_alt .
    then have uN: "unat N = length y - unat pos"
      unfolding N by (simp add: unat_sub uy)
    have Nz: "N \<noteq> 0"
      using uN p by (metis unat_0_iff zero_less_diff less_numeral_extra(3))
    have lb: "length b = unat N - 1"
      unfolding b_def uN by simp
    have mm: "min (unat N) (unat N - 1) = length b"
      unfolding lb by simp
    have len_ok: "min (unat N) (unat N - 1) \<le> length (b @ [CHR 0x00])"
      unfolding mm by simp
    have dr: "drop (Suc (unat pos)) (y @ [CHR 0x00]) = b @ [CHR 0x00]"
      unfolding b_def using p by simp
    note sp = fixed_string_ptr_spec [OF Nz len_ok, unfolded mm]
    have t: "take (length b) (b @ [CHR 0x00]) = b"
      by simp
    have one: "unat N - length b = Suc 0"
      unfolding lb using uN p by linarith
    have "unat N = Suc (length b)"
      unfolding lb using uN p by linarith
    then have "unat N = unat (of_nat (length b) + 1 :: size_t)"
      using unat_plus_1 [of "of_nat (length b)"] unat_of_nat_len64 [of "length b"] ly
      unfolding b_def by simp
    then have Nb: "N = of_nat (length b) + 1"
      unfolding word_unat_eq_iff .
    have ptr: "fixed_string_ptr N (b @ [CHR 0x00]) N = Inr (fixed_string_of b)"
      using sp unfolding t one fixed_string_of_def Nb [symmetric] by simp
    have le: "unat (pos + 1) \<le> length (data_f nm)"
      unfolding p1 nm_def fixed_string_of_fields using p by simp
    have "(let nm = fixed_string_of y; pos = rfind nm CHR '':'' in
              if pos = npos then Some (Inr nm)
              else let N = capacity_f nm - pos - 1 in
                if unat (pos + 1) \<le> length (data_f nm)
                then Some (fixed_string_ptr N (drop (unat (pos + 1)) (data_f nm)) N)
                else Some (Inl Out_Of_Bounds)) =
          Some (fixed_string_ptr N (drop (unat (pos + 1)) (data_f nm)) N)"
      unfolding Let_def nm_def [symmetric] pos_def [symmetric] N_def [symmetric]
      using pn le by (simp only: if_False if_True)
    also have "drop (unat (pos + 1)) (data_f nm) = b @ [CHR 0x00]"
      unfolding p1 nm_def fixed_string_of_fields dr ..
    finally show ?thesis
      unfolding ptr using nb y True by auto
  qed
qed

lemma base_of_plain_name:
  assumes plain: "\<not> (is_const T \<or> is_volatile T \<or> is_array T \<or> is_pointer T \<or> is_reference T \<or>
                    is_function T \<or> is_member_pointer T)"
    and name: "tidy c name = Some (Inr (fixed_string_of y))"
    and fits: "length y + 1 < 2 ^ 64"
  shows "\<exists>b. base c T name = Some (Inr (fixed_string_of b)) \<and>
             CHR '':'' \<notin> set b \<and>
             (if CHR '':'' \<in> set y then \<exists>p. y = p @ CHR '':'' # b else b = y)"
proof -
  have "base c T name =
      (let nm = fixed_string_of y; pos = rfind nm CHR '':'' in
       if pos = npos then Some (Inr nm)
       else let N = capacity_f nm - pos - 1 in
         if unat (pos + 1) \<le> length (data_f nm)
         then Some (fixed_string_ptr N (drop (unat (pos + 1)) (data_f nm)) N)
         else Some (Inl Out_Of_Bounds))"
    unfolding base_def name using plain by (simp only: if_False option.case sum.case Let_def)
  with base_plain_fixed_string [OF fits] show ?thesis
    by simp
qed

lemma tidy_result_shape:
  assumes fits: "length s + 1 < 2 ^ 64" and res: "tidy c (fixed_string_of s) = Some (Inr nm)"
  shows "\<exists>y. nm = fixed_string_of y \<and> length y \<le> length s"
proof (cases "c = MSVC")
  case True
  with res have "tidy_msvc (fixed_string_of s) = Some (Inr nm)"
    unfolding tidy_def by simp
  from tidy_msvc_result [OF fits this] show ?thesis
    by blast
next
  case False
  with res have "nm = fixed_string_of s"
    unfolding tidy_def by (cases c) simp_all
  then show ?thesis
    by blast
qed

text \<open>
  C8. For a type with none of those traits and a raw name that fits into \<^verbatim>\<open>std::size_t\<close>:
  whenever \<open>tidy\<close> produces a name, \<open>base\<close> produces a string without \<open>:\<close>, which is the tidy
  name itself when that has no \<open>:\<close>, and otherwise what follows the last \<open>:\<close> of the tidy name.
\<close>

theorem base_of_plain_has_no_separator:
  assumes plain: "\<not> (is_const T \<or> is_volatile T \<or> is_array T \<or> is_pointer T \<or> is_reference T \<or>
                    is_function T \<or> is_member_pointer T)"
    and fits: "length s + 1 < 2 ^ 64"
    and name: "tidy c (fixed_string_of s) = Some (Inr nm)"
  shows "\<exists>b. base c T (fixed_string_of s) = Some (Inr (fixed_string_of b)) \<and>
             CHR '':'' \<notin> set b \<and>
             (if CHR '':'' \<in> set (view nm) then \<exists>p. view nm = p @ CHR '':'' # b
              else fixed_string_of b = nm)"
proof -
  from tidy_result_shape [OF fits name] obtain y
    where y: "nm = fixed_string_of y" "length y \<le> length s"
    by blast
  have fy: "length y + 1 < 2 ^ 64"
    using y(2) fits by linarith
  then have "length y < 2 ^ 64"
    by linarith
  then have v: "view nm = y"
    unfolding y(1) by (rule view_fixed_string_of)
  from base_of_plain_name [OF plain name [unfolded y(1)] fy] obtain b
    where b: "base c T (fixed_string_of s) = Some (Inr (fixed_string_of b))" "CHR '':'' \<notin> set b"
      "if CHR '':'' \<in> set y then \<exists>p. y = p @ CHR '':'' # b else b = y"
    by blast
  have "if CHR '':'' \<in> set (view nm) then \<exists>p. view nm = p @ CHR '':'' # b
        else fixed_string_of b = nm"
  proof (cases "CHR '':'' \<in> set y")
    case True
    with b(3) have "\<exists>p. y = p @ CHR '':'' # b"
      by simp
    with True show ?thesis
      unfolding v by simp
  next
    case False
    with b(3) have "b = y"
      by simp
    with False y(1) show ?thesis
      unfolding v by simp
  qed
  with b(1,2) show ?thesis
    by blast
qed

theorem base_of_plain_has_no_separator_witness:
  "\<exists>b. base MSVC \<lparr>is_const = False, is_volatile = False, is_array = False, is_pointer = False,
              is_reference = False, is_function = False, is_member_pointer = False\<rparr>
            (fixed_string_of ''struct t::S'') = Some (Inr (fixed_string_of b)) \<and>
       CHR '':'' \<notin> set b \<and> (\<exists>p. view (fixed_string_of ''t::S'') = p @ CHR '':'' # b)"
proof -
  let ?T = "\<lparr>is_const = False, is_volatile = False, is_array = False, is_pointer = False,
              is_reference = False, is_function = False, is_member_pointer = False\<rparr>"
  have plain: "\<not> (is_const ?T \<or> is_volatile ?T \<or> is_array ?T \<or> is_pointer ?T \<or> is_reference ?T \<or>
                    is_function ?T \<or> is_member_pointer ?T)"
    by simp
  have fits: "length ''struct t::S'' + 1 < 2 ^ 64"
    by simp
  have name: "tidy MSVC (fixed_string_of ''struct t::S'') = Some (Inr (fixed_string_of ''t::S''))"
    by code_simp
  have "view (fixed_string_of ''t::S'') = ''t::S''"
    by (rule view_fixed_string_of) simp
  then have c: "CHR '':'' \<in> set (view (fixed_string_of ''t::S''))"
    by simp
  show ?thesis
    using base_of_plain_has_no_separator [OF plain fits name] unfolding if_P [OF c] .
qed

end
